theory Spec2Isabelle
  imports Complex_Main "HOL-Library.AList"
begin

section \<open>Data model of \<open>neurofis/nfs.py\<close>\<close>

text \<open>
  The classifier works on objects that are shared and mutated in place: a \<open>Point\<close> holds
  one coordinate \<open>x\<close>, a membership function \<open>MF\<close> holds references to three points
  (\<open>low\<close>, \<open>mid\<close>, \<open>high\<close>), and a rule key is a tuple of references to membership
  functions.  Objects are therefore kept in an explicit heap and named by their address;
  building an object takes the next free address.  The rule dictionary \<open>_rules\<close> is an
  association list in insertion order, keyed by the tuple of addresses (objects without a
  value equality of their own are hashed and compared by identity).  Floating-point
  numbers are read as reals, class labels and the integer parameters as unbounded
  integers.
\<close>

datatype error = IndexError | ValueError | AttributeError | ShuffleError

record MF =
  low :: nat
  mid :: nat
  high :: nat

record heap =
  point_x :: "nat \<Rightarrow> real"
  mf_at :: "nat \<Rightarrow> MF"
  n_points :: nat
  n_mfs :: nat

text \<open>A two-dimensional array: \<open>np.shape(data) = (length (rows data), ncols data)\<close>.\<close>

record ndarray =
  ncols :: nat
  rows :: "real list list"

type_synonym rule_dict = "(nat list \<times> int) list"

record NFS =
  nb_of_features :: nat
  max_rules :: int
  min_observations_per_rule :: int
  rules :: "rule_dict option"

definition wf_data :: "ndarray \<Rightarrow> bool" where
  "wf_data data = list_all (\<lambda>r. length r = ncols data) (rows data)"

definition empty_heap :: heap where
  "empty_heap = \<lparr>point_x = (\<lambda>_. 0), mf_at = (\<lambda>_. \<lparr>low = 0, mid = 0, high = 0\<rparr>),
                 n_points = 0, n_mfs = 0\<rparr>"

text \<open>\<open>NFS.__init__\<close>.\<close>

definition init :: "int \<Rightarrow> int \<Rightarrow> NFS" where
  "init mr mo = \<lparr>nb_of_features = 0, max_rules = mr, min_observations_per_rule = mo,
                 rules = None\<rparr>"

text \<open>Object construction: \<open>Point(x)\<close> and \<open>MF(low, mid, high)\<close>.\<close>

definition new_Point :: "real \<Rightarrow> heap \<Rightarrow> nat \<times> heap" where
  "new_Point x h =
     (n_points h, h\<lparr>point_x := (point_x h)(n_points h := x), n_points := Suc (n_points h)\<rparr>)"

definition new_MF :: "nat \<Rightarrow> nat \<Rightarrow> nat \<Rightarrow> heap \<Rightarrow> nat \<times> heap" where
  "new_MF l m u h =
     (n_mfs h, h\<lparr>mf_at := (mf_at h)(n_mfs h := \<lparr>low = l, mid = m, high = u\<rparr>),
                 n_mfs := Suc (n_mfs h)\<rparr>)"

text \<open>The coordinates \<open>m.low.x\<close>, \<open>m.mid.x\<close> and \<open>m.high.x\<close> of the function at address \<open>m\<close>.\<close>

definition low_x :: "heap \<Rightarrow> nat \<Rightarrow> real" where
  "low_x h m = point_x h (low (mf_at h m))"

definition mid_x :: "heap \<Rightarrow> nat \<Rightarrow> real" where
  "mid_x h m = point_x h (mid (mf_at h m))"

definition high_x :: "heap \<Rightarrow> nat \<Rightarrow> real" where
  "high_x h m = point_x h (high (mf_at h m))"

section \<open>Partition construction (lines 45--56)\<close>

text \<open>\<open>np.min\<close> and \<open>np.max\<close> of a column raise \<open>ValueError\<close> on an empty column.\<close>

fun np_min :: "real list \<Rightarrow> error + real" where
  "np_min [] = Inl ValueError"
| "np_min (x # xs) = Inr (fold min xs x)"

fun np_max :: "real list \<Rightarrow> error + real" where
  "np_max [] = Inl ValueError"
| "np_max (x # xs) = Inr (fold max xs x)"

text \<open>\<open>data[:, feat_index]\<close>\<close>

definition column :: "ndarray \<Rightarrow> nat \<Rightarrow> real list" where
  "column data feat_index = map (\<lambda>r. r ! feat_index) (rows data)"

text \<open>The loop \<open>for n in range(0, 7): points.append(Point(min_obs + n * (max_obs - min_obs) / 7))\<close>,
  run over the remaining values of \<open>n\<close>.\<close>

fun make_points :: "real \<Rightarrow> real \<Rightarrow> nat list \<Rightarrow> heap \<Rightarrow> nat list \<times> heap" where
  "make_points min_obs max_obs [] h = ([], h)"
| "make_points min_obs max_obs (n # ns) h =
     (case new_Point (min_obs + real n * (max_obs - min_obs) / 7) h of
        (p, h1) \<Rightarrow>
          (case make_points min_obs max_obs ns h1 of (ps, h2) \<Rightarrow> (p # ps, h2)))"

text \<open>The loop \<open>for n in range(0, 5): splits.append(MF(points[n], points[n + 1], points[n + 2]))\<close>.\<close>

fun make_splits :: "nat list \<Rightarrow> nat list \<Rightarrow> heap \<Rightarrow> nat list \<times> heap" where
  "make_splits points [] h = ([], h)"
| "make_splits points (n # ns) h =
     (case new_MF (points ! n) (points ! (n + 1)) (points ! (n + 2)) h of
        (m, h1) \<Rightarrow> (case make_splits points ns h1 of (ms, h2) \<Rightarrow> (m # ms, h2)))"

text \<open>The body of the loop over \<open>feat_index\<close>: the fuzzy sets of one feature.\<close>

definition make_feature :: "ndarray \<Rightarrow> nat \<Rightarrow> heap \<Rightarrow> error + (nat list \<times> heap)" where
  "make_feature data feat_index h =
     (case np_min (column data feat_index) of
        Inl e \<Rightarrow> Inl e
      | Inr min_obs \<Rightarrow>
          (case np_max (column data feat_index) of
             Inl e \<Rightarrow> Inl e
           | Inr max_obs \<Rightarrow>
               (case make_points min_obs max_obs [0..<7] h of
                  (points, h1) \<Rightarrow> Inr (make_splits points [0..<5] h1))))"

text \<open>The loop \<open>for feat_index in range(0, np.shape(data)[1])\<close>, building \<open>mfs\<close>.\<close>

fun build_mfs :: "ndarray \<Rightarrow> nat list \<Rightarrow> heap \<Rightarrow> error + (nat list list \<times> heap)" where
  "build_mfs data [] h = Inr ([], h)"
| "build_mfs data (feat_index # rest) h =
     (case make_feature data feat_index h of
        Inl e \<Rightarrow> Inl e
      | Inr (splits, h1) \<Rightarrow>
          (case build_mfs data rest h1 of
             Inl e \<Rightarrow> Inl e
           | Inr (mfs, h2) \<Rightarrow> Inr (splits # mfs, h2)))"

section \<open>Rule candidates and pruning (lines 58--87)\<close>

text \<open>The test of lines 67--72 on the row \<open>data[observ, :]\<close>: every feature's value lies in
  the closed interval from \<open>low.x\<close> to \<open>high.x\<close> of the cell's function for that feature.\<close>

definition in_cell :: "heap \<Rightarrow> nat list \<Rightarrow> real list \<Rightarrow> bool" where
  "in_cell h intersection row =
     list_all (\<lambda>feature. low_x h (intersection ! feature) \<le> row ! feature
                        \<and> row ! feature \<le> high_x h (intersection ! feature))
       [0..<length row]"

text \<open>Indexing a tuple or a one-dimensional array: out of range raises \<open>IndexError\<close>.\<close>

definition item :: "'a list \<Rightarrow> nat \<Rightarrow> error + 'a" where
  "item xs i = (if i < length xs then Inr (xs ! i) else Inl IndexError)"

text \<open>Lines 74--76 on the dictionary \<open>classes\<close>, kept in insertion order.\<close>

definition count_up :: "int \<Rightarrow> (int \<times> nat) list \<Rightarrow> (int \<times> nat) list" where
  "count_up c classes =
     (let classes1 = (if map_of classes c = None then AList.update c 0 classes else classes)
      in AList.update c (the (map_of classes1 c) + 1) classes1)"

text \<open>The loop \<open>for observ in range(0, np.shape(data)[0])\<close> of lines 66--76.\<close>

fun count_loop ::
  "heap \<Rightarrow> ndarray \<Rightarrow> int list \<Rightarrow> nat list \<Rightarrow> nat list \<Rightarrow> (int \<times> nat) list
     \<Rightarrow> error + (int \<times> nat) list" where
  "count_loop h data target intersection [] classes = Inr classes"
| "count_loop h data target intersection (observ # rest) classes =
     (if in_cell h intersection (rows data ! observ)
      then (case item target observ of
              Inl e \<Rightarrow> Inl e
            | Inr c \<Rightarrow> count_loop h data target intersection rest (count_up c classes))
      else count_loop h data target intersection rest classes)"

text \<open>Python's \<open>max\<close> on pairs \<open>(count, class)\<close>: tuples compare lexicographically, and the
  first maximal item is kept.\<close>

definition tuple_gt :: "nat \<times> int \<Rightarrow> nat \<times> int \<Rightarrow> bool" where
  "tuple_gt a b = (fst b < fst a \<or> (fst a = fst b \<and> snd b < snd a))"

fun py_max :: "(nat \<times> int) list \<Rightarrow> error + (nat \<times> int)" where
  "py_max [] = Inl ValueError"
| "py_max (x # xs) = Inr (fold (\<lambda>item best. if tuple_gt item best then item else best) xs x)"

text \<open>Lines 65--83 for one grid cell: \<open>None\<close> for an empty cell (\<open>continue\<close>), otherwise
  \<open>(nb_of_observations, rule_class)\<close>.\<close>

definition label_cell ::
  "heap \<Rightarrow> ndarray \<Rightarrow> int list \<Rightarrow> nat list \<Rightarrow> error + (nat \<times> int) option" where
  "label_cell h data target intersection =
     (case count_loop h data target intersection [0..<length (rows data)] [] of
        Inl e \<Rightarrow> Inl e
      | Inr classes \<Rightarrow>
          if classes = [] then Inr None
          else (case py_max (zip (map snd classes) (map fst classes)) of
                  Inl e \<Rightarrow> Inl e
                | Inr best \<Rightarrow> Inr (Some best)))"

text \<open>The loop \<open>for intersection in intersections\<close> of lines 64--86, filling \<open>_rules\<close>.\<close>

fun label_loop ::
  "heap \<Rightarrow> ndarray \<Rightarrow> int list \<Rightarrow> int \<Rightarrow> nat list list \<Rightarrow> rule_dict \<Rightarrow> error + rule_dict" where
  "label_loop h data target min_obs [] rs = Inr rs"
| "label_loop h data target min_obs (intersection # rest) rs =
     (case label_cell h data target intersection of
        Inl e \<Rightarrow> Inl e
      | Inr None \<Rightarrow> label_loop h data target min_obs rest rs
      | Inr (Some (nb_of_observations, rule_class)) \<Rightarrow>
          if min_obs \<le> int nb_of_observations
          then label_loop h data target min_obs rest (AList.update intersection rule_class rs)
          else label_loop h data target min_obs rest rs)"

section \<open>Repair (lines 116--136)\<close>

text \<open>The variable \<open>dist\<close> (here \<open>dist'\<close>) starts at \<open>float('+infinity')\<close>, written
  \<open>None\<close>.\<close>

definition lt_dist :: "real \<Rightarrow> real option \<Rightarrow> bool" where
  "lt_dist d dist' = (case dist' of None \<Rightarrow> True | Some e \<Rightarrow> d < e)"

text \<open>The loop \<open>for other_rule in self._rules.keys()\<close> of lines 127--131.  Line 130 stores
  \<open>rule[feature]\<close> itself in \<open>neighbour\<close>.\<close>

fun find_neighbour ::
  "heap \<Rightarrow> nat \<Rightarrow> nat list \<Rightarrow> nat list list \<Rightarrow> nat option \<times> real option
     \<Rightarrow> error + (nat option \<times> real option)" where
  "find_neighbour h feature rule [] nd = Inr nd"
| "find_neighbour h feature rule (other_rule # rest) nd =
     (case item rule feature of
        Inl e \<Rightarrow> Inl e
      | Inr m \<Rightarrow>
          (case item other_rule feature of
             Inl e \<Rightarrow> Inl e
           | Inr other \<Rightarrow>
               if high_x h m < mid_x h other \<and> lt_dist (mid_x h other - high_x h m) (snd nd)
               then find_neighbour h feature rule rest
                      (Some m, Some (mid_x h other - high_x h m))
               else find_neighbour h feature rule rest nd))"

text \<open>Lines 134 and 135: \<open>neighbour.low = rule[feature].mid\<close>, then
  \<open>rule[feature].high = neighbour.mid\<close>.\<close>

definition merge_points :: "nat \<Rightarrow> nat \<Rightarrow> heap \<Rightarrow> heap" where
  "merge_points neighbour m h =
     (let h1 = h\<lparr>mf_at := (mf_at h)(neighbour := (mf_at h neighbour)\<lparr>low := mid (mf_at h m)\<rparr>)\<rparr>
      in h1\<lparr>mf_at := (mf_at h1)(m := (mf_at h1 m)\<lparr>high := mid (mf_at h1 neighbour)\<rparr>)\<rparr>)"

text \<open>The body of the loop over \<open>rule\<close>, lines 123--135.\<close>

definition repair_rule :: "nat \<Rightarrow> nat list list \<Rightarrow> nat list \<Rightarrow> heap \<Rightarrow> error + heap" where
  "repair_rule feature keys rule h =
     (case find_neighbour h feature rule keys (None, None) of
        Inl e \<Rightarrow> Inl e
      | Inr (neighbour, dist') \<Rightarrow>
          (case neighbour of
             None \<Rightarrow> Inr h
           | Some nb \<Rightarrow>
               if dist' \<noteq> Some 0
               then (case item rule feature of
                       Inl e \<Rightarrow> Inl e
                     | Inr m \<Rightarrow> Inr (merge_points nb m h))
               else Inr h))"

fun repair_rules :: "nat \<Rightarrow> nat list list \<Rightarrow> nat list list \<Rightarrow> heap \<Rightarrow> error + heap" where
  "repair_rules feature keys [] h = Inr h"
| "repair_rules feature keys (rule # rest) h =
     (case repair_rule feature keys rule h of
        Inl e \<Rightarrow> Inl e
      | Inr h1 \<Rightarrow> repair_rules feature keys rest h1)"

fun repair_features :: "nat list list \<Rightarrow> nat list \<Rightarrow> heap \<Rightarrow> error + heap" where
  "repair_features keys [] h = Inr h"
| "repair_features keys (feature # rest) h =
     (case repair_rules feature keys keys h of
        Inl e \<Rightarrow> Inl e
      | Inr h1 \<Rightarrow> repair_features keys rest h1)"

text \<open>\<open>NFS.repair\<close>.  \<open>self._rules.keys()\<close> is reached only when there is a feature to
  visit; on \<open>None\<close> it raises \<open>AttributeError\<close>.\<close>

definition repair :: "nat \<Rightarrow> NFS \<Rightarrow> heap \<Rightarrow> error + heap" where
  "repair nb nfs h =
     (case rules nfs of
        None \<Rightarrow> if nb = 0 then Inr h else Inl AttributeError
      | Some rs \<Rightarrow> repair_features (map fst rs) [0..<nb] h)"

section \<open>Activation, competitive training (lines 91--112) and evaluation (lines 138--159)\<close>

text \<open>
  The methods \<open>MF.fuzzyfy\<close> and \<open>MF.move\<close> belong to the module \<open>neurofis.mf\<close>, which is
  not part of the listing; both are parameters of the model.  \<open>fuzzyfy h m v\<close> is the
  degree \<open>m.fuzzyfy(v)\<close> read in heap \<open>h\<close>, and \<open>move h m v learning_rate same\<close> is the heap
  after \<open>m.move(v, learning_rate, same)\<close>.  The shuffle of \<open>sklearn.utils\<close> is a parameter
  as well; it returns the permuted pair or raises.

  The activation is accumulated in double precision.  A floating-point number is read as
  the real number it stands for, and every floating-point operation returns the rounding
  of the exact result; the rounding function \<open>rnd\<close> is a parameter of the model.  Comparisons
  of floating-point numbers are exact.
\<close>

type_synonym rounding = "real \<Rightarrow> real"
type_synonym fuzzyfy_fn = "heap \<Rightarrow> nat \<Rightarrow> real \<Rightarrow> real"
type_synonym move_fn = "heap \<Rightarrow> nat \<Rightarrow> real \<Rightarrow> real \<Rightarrow> bool \<Rightarrow> heap"
type_synonym shuffle_fn = "ndarray \<Rightarrow> int list \<Rightarrow> error + (ndarray \<times> int list)"

text \<open>\<open>data[obs, feat]\<close>\<close>

definition item2 :: "ndarray \<Rightarrow> nat \<Rightarrow> nat \<Rightarrow> error + real" where
  "item2 data obs feat =
     (if obs < length (rows data) \<and> feat < ncols data then Inr (rows data ! obs ! feat)
      else Inl IndexError)"

text \<open>The loop \<open>for feat in range(0, len(mfs)): act += mfs[feat].fuzzyfy(data[obs, feat]) / len(mfs)\<close>:
  a rounded division, then a rounded addition.\<close>

fun activate ::
  "rounding \<Rightarrow> fuzzyfy_fn \<Rightarrow> heap \<Rightarrow> ndarray \<Rightarrow> nat \<Rightarrow> nat list \<Rightarrow> nat list \<Rightarrow> real \<Rightarrow> error + real" where
  "activate rnd fuzzyfy h data obs mfs [] act = Inr act"
| "activate rnd fuzzyfy h data obs mfs (feat # rest) act =
     (case item2 data obs feat of
        Inl e \<Rightarrow> Inl e
      | Inr v \<Rightarrow>
          activate rnd fuzzyfy h data obs mfs rest
            (rnd (act + rnd (fuzzyfy h (mfs ! feat) v / real (length mfs)))))"

definition activation :: "rounding \<Rightarrow> fuzzyfy_fn \<Rightarrow> heap \<Rightarrow> ndarray \<Rightarrow> nat \<Rightarrow> nat list \<Rightarrow> error + real" where
  "activation rnd fuzzyfy h data obs mfs = activate rnd fuzzyfy h data obs mfs [0..<length mfs] 0"

text \<open>The scan of lines 95--105 over \<open>self._rules.items()\<close>, with the strict comparison.\<close>

fun find_max_rule ::
  "rounding \<Rightarrow> fuzzyfy_fn \<Rightarrow> heap \<Rightarrow> ndarray \<Rightarrow> nat \<Rightarrow> rule_dict \<Rightarrow> (nat list \<times> int) option \<times> real
     \<Rightarrow> error + ((nat list \<times> int) option \<times> real)" where
  "find_max_rule rnd fuzzyfy h data obs [] best = Inr best"
| "find_max_rule rnd fuzzyfy h data obs ((mfs, target_class) # rest) best =
     (case activation rnd fuzzyfy h data obs mfs of
        Inl e \<Rightarrow> Inl e
      | Inr act \<Rightarrow>
          if snd best < act
          then find_max_rule rnd fuzzyfy h data obs rest (Some (mfs, target_class), act)
          else find_max_rule rnd fuzzyfy h data obs rest best)"

text \<open>The loop of lines 109--112 that moves every function of the winning rule.\<close>

fun move_all ::
  "move_fn \<Rightarrow> ndarray \<Rightarrow> int list \<Rightarrow> nat \<Rightarrow> real \<Rightarrow> nat list \<times> int \<Rightarrow> nat list \<Rightarrow> heap
     \<Rightarrow> error + heap" where
  "move_all move data target obs learning_rate max_rule [] h = Inr h"
| "move_all move data target obs learning_rate max_rule (feat # rest) h =
     (case item2 data obs feat of
        Inl e \<Rightarrow> Inl e
      | Inr v \<Rightarrow>
          (case item target obs of
             Inl e \<Rightarrow> Inl e
           | Inr t \<Rightarrow>
               move_all move data target obs learning_rate max_rule rest
                 (move h (fst max_rule ! feat) v learning_rate (snd max_rule = t))))"

text \<open>The body of the loop over \<open>obs\<close>, lines 94--112.\<close>

definition train_obs ::
  "rounding \<Rightarrow> fuzzyfy_fn \<Rightarrow> move_fn \<Rightarrow> ndarray \<Rightarrow> int list \<Rightarrow> real \<Rightarrow> rule_dict \<Rightarrow> nat \<Rightarrow> heap
     \<Rightarrow> error + heap" where
  "train_obs rnd fuzzyfy move data target learning_rate rs obs h =
     (case find_max_rule rnd fuzzyfy h data obs rs (None, 0) of
        Inl e \<Rightarrow> Inl e
      | Inr (max_rule, max_act) \<Rightarrow>
          (case max_rule of
             None \<Rightarrow> Inr h
           | Some r \<Rightarrow>
               move_all move data target obs learning_rate r [0..<length (fst r)] h))"

fun train_pass ::
  "rounding \<Rightarrow> fuzzyfy_fn \<Rightarrow> move_fn \<Rightarrow> ndarray \<Rightarrow> int list \<Rightarrow> real \<Rightarrow> rule_dict \<Rightarrow> nat list \<Rightarrow> heap
     \<Rightarrow> error + heap" where
  "train_pass rnd fuzzyfy move data target learning_rate rs [] h = Inr h"
| "train_pass rnd fuzzyfy move data target learning_rate rs (obs # rest) h =
     (case train_obs rnd fuzzyfy move data target learning_rate rs obs h of
        Inl e \<Rightarrow> Inl e
      | Inr h1 \<Rightarrow> train_pass rnd fuzzyfy move data target learning_rate rs rest h1)"

text \<open>The loop \<open>for i in range(0, nb_iter)\<close>, with the number of passes still to run.\<close>

fun train_iters ::
  "rounding \<Rightarrow> fuzzyfy_fn \<Rightarrow> move_fn \<Rightarrow> ndarray \<Rightarrow> int list \<Rightarrow> real \<Rightarrow> rule_dict \<Rightarrow> nat \<Rightarrow> heap
     \<Rightarrow> error + heap" where
  "train_iters rnd fuzzyfy move data target learning_rate rs 0 h = Inr h"
| "train_iters rnd fuzzyfy move data target learning_rate rs (Suc i) h =
     (case train_pass rnd fuzzyfy move data target learning_rate rs [0..<length (rows data)] h of
        Inl e \<Rightarrow> Inl e
      | Inr h1 \<Rightarrow> train_iters rnd fuzzyfy move data target learning_rate rs i h1)"

text \<open>
  The shuffle of line 38 as \<open>sklearn.utils.shuffle\<close> behaves: it raises \<open>ValueError\<close> when
  the two arrays differ in their number of samples, and otherwise returns both reordered
  by one and the same permutation \<open>perm\<close> of the row indices, which it draws at random.
\<close>

definition sklearn_shuffle :: "nat list \<Rightarrow> shuffle_fn" where
  "sklearn_shuffle perm data target =
     (if length (rows data) = length target
      then Inr (data\<lparr>rows := map (\<lambda>i. rows data ! i) perm\<rparr>, map (\<lambda>i. target ! i) perm)
      else Inl ValueError)"

text \<open>\<open>perm\<close> lists each index below \<open>n\<close> once.\<close>

definition is_permutation :: "nat list \<Rightarrow> nat \<Rightarrow> bool" where
  "is_permutation perm n = (sort perm = [0..<n])"

text \<open>Lines 34--89 of \<open>NFS.train\<close>: shuffle, partitions, grid, pruning and repair.  The
  result carries the shuffled data and labels, which the training loop reads.\<close>

definition induce_and_repair ::
  "shuffle_fn \<Rightarrow> ndarray \<Rightarrow> int list \<Rightarrow> NFS \<Rightarrow> heap
     \<Rightarrow> error + (ndarray \<times> int list \<times> NFS \<times> heap)" where
  "induce_and_repair shuffle data0 target0 nfs h =
     (case shuffle data0 target0 of
        Inl e \<Rightarrow> Inl e
      | Inr (data, target) \<Rightarrow>
          (case build_mfs data [0..<ncols data] h of
             Inl e \<Rightarrow> Inl e
           | Inr (mfs, h1) \<Rightarrow>
               (case label_loop h1 data target (min_observations_per_rule nfs)
                       (product_lists mfs) [] of
                  Inl e \<Rightarrow> Inl e
                | Inr rs \<Rightarrow>
                    (let nfs1 = nfs\<lparr>nb_of_features := ncols data0, rules := Some rs\<rparr>
                     in case repair (ncols data) nfs1 h1 of
                          Inl e \<Rightarrow> Inl e
                        | Inr h2 \<Rightarrow> Inr (data, target, nfs1, h2)))))"

text \<open>\<open>NFS.train\<close>\<close>

definition train ::
  "shuffle_fn \<Rightarrow> rounding \<Rightarrow> fuzzyfy_fn \<Rightarrow> move_fn \<Rightarrow> ndarray \<Rightarrow> int list \<Rightarrow> int \<Rightarrow> real \<Rightarrow> NFS \<Rightarrow> heap
     \<Rightarrow> error + (NFS \<times> heap)" where
  "train shuffle rnd fuzzyfy move data0 target0 nb_iter learning_rate nfs h =
     (case induce_and_repair shuffle data0 target0 nfs h of
        Inl e \<Rightarrow> Inl e
      | Inr (data, target, nfs1, h2) \<Rightarrow>
          (case train_iters rnd fuzzyfy move data target learning_rate (the (rules nfs1))
                  (nat nb_iter) h2 of
             Inl e \<Rightarrow> Inl e
           | Inr h3 \<Rightarrow> Inr (nfs1, h3)))"

text \<open>The scan of lines 149--158, with the non-strict comparison; \<open>max_class\<close> starts at
  \<open>-1\<close>.\<close>

fun test_scan ::
  "rounding \<Rightarrow> fuzzyfy_fn \<Rightarrow> heap \<Rightarrow> ndarray \<Rightarrow> nat \<Rightarrow> rule_dict \<Rightarrow> real \<times> int \<Rightarrow> error + (real \<times> int)" where
  "test_scan rnd fuzzyfy h data obs [] best = Inr best"
| "test_scan rnd fuzzyfy h data obs ((mfs, target_class) # rest) best =
     (case activation rnd fuzzyfy h data obs mfs of
        Inl e \<Rightarrow> Inl e
      | Inr act \<Rightarrow>
          if fst best \<le> act
          then test_scan rnd fuzzyfy h data obs rest (act, target_class)
          else test_scan rnd fuzzyfy h data obs rest best)"

text \<open>The body of the loop over \<open>obs\<close>: the prediction for one observation.\<close>

definition predict :: "rounding \<Rightarrow> fuzzyfy_fn \<Rightarrow> heap \<Rightarrow> ndarray \<Rightarrow> rule_dict \<Rightarrow> nat \<Rightarrow> error + int" where
  "predict rnd fuzzyfy h data rs obs =
     (case test_scan rnd fuzzyfy h data obs rs (0, - 1) of
        Inl e \<Rightarrow> Inl e
      | Inr (max_act, max_class) \<Rightarrow> Inr max_class)"

fun test_loop ::
  "rounding \<Rightarrow> fuzzyfy_fn \<Rightarrow> heap \<Rightarrow> ndarray \<Rightarrow> rule_dict \<Rightarrow> nat list \<Rightarrow> int list \<Rightarrow> error + int list" where
  "test_loop rnd fuzzyfy h data rs [] predictions = Inr predictions"
| "test_loop rnd fuzzyfy h data rs (obs # rest) predictions =
     (case predict rnd fuzzyfy h data rs obs of
        Inl e \<Rightarrow> Inl e
      | Inr max_class \<Rightarrow> test_loop rnd fuzzyfy h data rs rest (predictions @ [max_class]))"

text \<open>\<open>NFS.test\<close>, up to the list \<open>predictions\<close> that is handed to the metrics.\<close>

definition test :: "rounding \<Rightarrow> fuzzyfy_fn \<Rightarrow> ndarray \<Rightarrow> NFS \<Rightarrow> heap \<Rightarrow> error + int list" where
  "test rnd fuzzyfy data nfs h =
     (case rules nfs of
        None \<Rightarrow> if rows data = [] then Inr [] else Inl AttributeError
      | Some rs \<Rightarrow> test_loop rnd fuzzyfy h data rs [0..<length (rows data)] [])"

section \<open>Notions used to state the properties\<close>

text \<open>The number of observations of class \<open>c\<close> that fall inside a grid cell.\<close>

definition cell_count :: "heap \<Rightarrow> ndarray \<Rightarrow> int list \<Rightarrow> nat list \<Rightarrow> int \<Rightarrow> nat" where
  "cell_count h data target intersection c =
     length (filter (\<lambda>observ. in_cell h intersection (rows data ! observ) \<and> target ! observ = c)
               [0..<length (rows data)])"

text \<open>The count stored for class \<open>c\<close> in the dictionary \<open>classes\<close>, \<open>0\<close> when \<open>c\<close> is no key.\<close>

definition lookup_count :: "(int \<times> nat) list \<Rightarrow> int \<Rightarrow> nat" where
  "lookup_count classes c = (case map_of classes c of None \<Rightarrow> 0 | Some n \<Rightarrow> n)"

text \<open>The tie-break as the specification words it: among the classes of maximal count, the
  one that comes first when the dictionary of class counts is scanned.\<close>

definition first_enumerated_max :: "(int \<times> nat) list \<Rightarrow> int" where
  "first_enumerated_max classes =
     fst (hd (filter (\<lambda>kv. list_all (\<lambda>kv'. snd kv' \<le> snd kv) classes) classes))"

text \<open>The activation of a rule for one row as lines 98--101 and 152--155 compute it: the
  running double-precision sum of the degrees, each divided by the number of features.\<close>

definition float_activation :: "rounding \<Rightarrow> fuzzyfy_fn \<Rightarrow> heap \<Rightarrow> real list \<Rightarrow> nat list \<Rightarrow> real" where
  "float_activation rnd fuzzyfy h row mfs =
     foldl (\<lambda>act feat. rnd (act + rnd (fuzzyfy h (mfs ! feat) (row ! feat) / real (length mfs))))
       0 [0..<length mfs]"


text \<open>The entries of a list whose score is the greatest, in the order of the list.\<close>

definition maximal_by :: "('a \<Rightarrow> real) \<Rightarrow> 'a list \<Rightarrow> 'a list" where
  "maximal_by score xs = filter (\<lambda>x. list_all (\<lambda>y. score y \<le> score x) xs) xs"

text \<open>The rules of maximal computed activation for a row, in enumeration order.\<close>

definition most_activated ::
  "rounding \<Rightarrow> fuzzyfy_fn \<Rightarrow> heap \<Rightarrow> real list \<Rightarrow> rule_dict \<Rightarrow> rule_dict" where
  "most_activated rnd fuzzyfy h row rs =
     maximal_by (\<lambda>r. float_activation rnd fuzzyfy h row (fst r)) rs"

text \<open>Every rule key has one function per column of the data.\<close>

definition wf_rules :: "ndarray \<Rightarrow> rule_dict \<Rightarrow> bool" where
  "wf_rules data rs = list_all (\<lambda>r. length (fst r) \<le> ncols data) rs"

text \<open>The heap after both \<open>low\<close> and \<open>high\<close> of the function at \<open>m\<close> are set to its \<open>mid\<close>.\<close>

definition collapse :: "nat \<Rightarrow> heap \<Rightarrow> heap" where
  "collapse m h =
     h\<lparr>mf_at := (mf_at h)(m := (mf_at h m)\<lparr>low := mid (mf_at h m), high := mid (mf_at h m)\<rparr>)\<rparr>"

definition collapsed :: "heap \<Rightarrow> nat \<Rightarrow> bool" where
  "collapsed h m = (low (mf_at h m) = mid (mf_at h m) \<and> high (mf_at h m) = mid (mf_at h m))"

text \<open>Some rule's function for \<open>feature\<close> has its \<open>mid\<close> strictly right of the \<open>high\<close> of \<open>m\<close>.\<close>

definition has_right :: "heap \<Rightarrow> nat \<Rightarrow> nat list list \<Rightarrow> nat \<Rightarrow> bool" where
  "has_right h feature keys m = list_ex (\<lambda>other. high_x h m < mid_x h (other ! feature)) keys"

text \<open>Repair has nothing left to do for \<open>m\<close> as a function of \<open>feature\<close>.\<close>

definition settled :: "heap \<Rightarrow> nat list list \<Rightarrow> nat \<Rightarrow> nat \<Rightarrow> bool" where
  "settled h keys feature m = (if has_right h feature keys m then collapsed h m else True)"

subsection \<open>Concrete inputs\<close>

text \<open>One feature with the observations \<open>0\<close>, \<open>5.5\<close> and \<open>7\<close>, labelled \<open>0\<close>, \<open>1\<close>, \<open>1\<close>.\<close>

definition ex_data :: ndarray where
  "ex_data = \<lparr>ncols = 1, rows = [[0], [11 / 2], [7]]\<rparr>"

definition ex_target :: "int list" where
  "ex_target = [0, 1, 1]"

text \<open>One feature with two observations at \<open>0\<close> of different classes.\<close>

definition tie_data :: ndarray where
  "tie_data = \<lparr>ncols = 1, rows = [[0], [0], [7]]\<rparr>"

text \<open>A matrix of one row and no column.\<close>

definition no_feature_data :: ndarray where
  "no_feature_data = \<lparr>ncols = 0, rows = [[]]\<rparr>"

text \<open>The heap after partition construction on \<open>data\<close>, starting from the empty heap.\<close>

definition built_heap :: "ndarray \<Rightarrow> heap" where
  "built_heap data =
     (case build_mfs data [0..<ncols data] empty_heap of
        Inl e \<Rightarrow> empty_heap
      | Inr (mfs, h) \<Rightarrow> h)"

text \<open>The two rules that induction keeps on \<open>ex_data\<close> with a support threshold of \<open>1\<close>.\<close>

definition ex_rules :: rule_dict where
  "ex_rules = [([0], 0), ([4], 1)]"

text \<open>Arithmetic without rounding error, a membership degree that is constantly \<open>0\<close> or
  \<open>1\<close>, and a \<open>move\<close> that shifts the \<open>mid\<close> point by the learning rate: stand-ins for the
  collaborators when a statement is evaluated on concrete data.\<close>

definition exact :: rounding where
  "exact x = x"

text \<open>Rounding to the nearest integer, ties to the even one.\<close>

definition round_half_even :: "real \<Rightarrow> int" where
  "round_half_even x =
     (let f = \<lfloor>x\<rfloor>
      in if x - of_int f < 1 / 2 then f
         else if 1 / 2 < x - of_int f then f + 1
         else if even f then f else f + 1)"

text \<open>Rounding to double precision (IEEE 754 binary64, round to nearest, ties to even) for
  numbers in the normal range: 53 significant bits.\<close>

definition float64 :: rounding where
  "float64 x =
     (if x = 0 then 0
      else (let e = \<lfloor>log 2 \<bar>x\<bar>\<rfloor> - 52
            in of_int (round_half_even (x / 2 powr of_int e)) * 2 powr of_int e))"

text \<open>Labels for \<open>ex_data\<close> among which \<open>-1\<close> occurs, and the rules that induction then keeps
  with a support threshold of \<open>1\<close>.\<close>

definition minus_target :: "int list" where
  "minus_target = [1, - 1, - 1]"

definition minus_rules :: rule_dict where
  "minus_rules = [([0], 1), ([4], - 1)]"

text \<open>One row of three features; two rules whose functions have, for that row, the degrees
  \<open>1/4, 1/2, 1\<close> and \<open>1, 1/2, 1/4\<close>, given by a table on the functions' addresses.\<close>

definition three_data :: ndarray where
  "three_data = \<lparr>ncols = 3, rows = [[0, 0, 0]]\<rparr>"

definition ulp_rules :: rule_dict where
  "ulp_rules = [([0, 5, 10], 0), ([1, 6, 11], 1)]"

definition fuzzyfy_table :: fuzzyfy_fn where
  "fuzzyfy_table h m v =
     (if m = 0 \<or> m = 11 then 1 / 4
      else if m = 5 \<or> m = 6 then 1 / 2
      else if m = 10 \<or> m = 1 then 1
      else 0)"

definition fuzzyfy_zero :: fuzzyfy_fn where
  "fuzzyfy_zero h m v = 0"

definition fuzzyfy_one :: fuzzyfy_fn where
  "fuzzyfy_one h m v = 1"

definition move_mid :: move_fn where
  "move_mid h m v learning_rate same =
     h\<lparr>point_x := (point_x h)(mid (mf_at h m) := mid_x h m + learning_rate)\<rparr>"

section \<open>Properties\<close>

lemmas eval_defs =
  make_feature_def column_def empty_heap_def new_Point_def new_MF_def upt_rec
  in_cell_def low_x_def high_x_def mid_x_def item_def count_up_def tuple_gt_def label_cell_def
  lt_dist_def merge_points_def repair_rule_def repair_def init_def

subsection \<open>Training without passes\<close>

text \<open>
  C7.  With \<open>nb_iter = 0\<close> the training loop does nothing: \<open>train\<close> returns the rule
  dictionary and the heap (every function's vertices and every vertex position) exactly as
  they are after repair, and fails exactly when induction or repair fails.
\<close>

theorem train_zero_iterations:
  "train shuffle rnd fuzzyfy move data0 target0 0 learning_rate nfs h =
     (case induce_and_repair shuffle data0 target0 nfs h of
        Inl e \<Rightarrow> Inl e
      | Inr (data, target, nfs1, h2) \<Rightarrow> Inr (nfs1, h2))"
  by (simp add: train_def split: sum.splits)

subsection \<open>Repair on a concrete rule set\<close>

text \<open>
  C1.  On the observations \<open>0\<close>, \<open>5.5\<close>, \<open>7\<close> with labels \<open>0\<close>, \<open>1\<close>, \<open>1\<close> and a support
  threshold of \<open>1\<close>, induction keeps the functions \<open>0\<close> (vertices at \<open>0, 1, 2\<close>) and \<open>4\<close>
  (vertices at \<open>4, 5, 6\<close>).  Function \<open>4\<close> is the nearest right-hand neighbour of function
  \<open>0\<close>: its \<open>mid\<close> is \<open>5\<close>, beyond the \<open>high\<close> of function \<open>0\<close> at \<open>2\<close>.  The merge should set
  the \<open>low\<close> of function \<open>4\<close> to point \<open>1\<close> and the \<open>high\<close> of function \<open>0\<close> to point \<open>5\<close>.
  Repair instead leaves function \<open>4\<close> as it was and sets both \<open>low\<close> and \<open>high\<close> of function
  \<open>0\<close> to its own \<open>mid\<close>, point \<open>1\<close>.
\<close>

theorem repair_collapses_function_onto_own_mid:
  "case build_mfs ex_data [0..<ncols ex_data] empty_heap of
     Inl e \<Rightarrow> False
   | Inr (mfs, h1) \<Rightarrow>
       label_loop h1 ex_data ex_target 1 (product_lists mfs) [] = Inr [([0], 0), ([4], 1)] \<and>
       mf_at h1 0 = \<lparr>low = 0, mid = 1, high = 2\<rparr> \<and>
       mf_at h1 4 = \<lparr>low = 4, mid = 5, high = 6\<rparr> \<and>
       high_x h1 0 = 2 \<and> mid_x h1 4 = 5 \<and>
       (case repair 1 ((init 10 1)\<lparr>rules := Some [([0], 0), ([4], 1)]\<rparr>) h1 of
          Inl e \<Rightarrow> False
        | Inr h2 \<Rightarrow>
            mf_at h2 0 = \<lparr>low = 1, mid = 1, high = 1\<rparr> \<and>
            mf_at h2 4 = \<lparr>low = 4, mid = 5, high = 6\<rparr>)"
  by (simp add: ex_data_def ex_target_def eval_defs)

subsection \<open>The partition on a concrete column\<close>

text \<open>
  C2.  For the column \<open>0\<close>, \<open>5.5\<close>, \<open>7\<close> the seven break points are \<open>0, 1, ..., 6\<close>: they are
  equally spaced and the five functions take three consecutive points each, but the last
  point is \<open>6\<close>, not the maximum \<open>7\<close>, so the points do not span the observed range, and
  the observation \<open>7\<close> lies in no function's interval from \<open>low\<close> to \<open>high\<close>.
\<close>

theorem partition_stops_short_of_max:
  "case build_mfs ex_data [0..<ncols ex_data] empty_heap of
     Inl e \<Rightarrow> False
   | Inr (mfs, h) \<Rightarrow>
       mfs = [[0, 1, 2, 3, 4]] \<and>
       np_max (column ex_data 0) = Inr 7 \<and>
       map (point_x h) [0..<7] = [0, 1, 2, 3, 4, 5, 6] \<and>
       map (mf_at h) [0..<5] =
         [\<lparr>low = 0, mid = 1, high = 2\<rparr>, \<lparr>low = 1, mid = 2, high = 3\<rparr>,
          \<lparr>low = 2, mid = 3, high = 4\<rparr>, \<lparr>low = 3, mid = 4, high = 5\<rparr>,
          \<lparr>low = 4, mid = 5, high = 6\<rparr>] \<and>
       \<not> list_ex (\<lambda>intersection. in_cell h intersection [7]) (product_lists mfs)"
  by (simp add: ex_data_def eval_defs)

subsection \<open>Counting the observations of a cell\<close>

lemma count_up_lookup:
  "lookup_count (count_up c cl) c' = (if c' = c then lookup_count cl c + 1 else lookup_count cl c')"
  by (auto simp: count_up_def lookup_count_def Let_def AList.update_conv' split: option.splits)

lemma count_up_distinct: "distinct (map fst cl) \<Longrightarrow> distinct (map fst (count_up c cl))"
  by (simp add: count_up_def Let_def AList.distinct_update)

lemma lookup_count_pos:
  "distinct (map fst cl) \<Longrightarrow> list_all (\<lambda>kv. 0 < snd kv) cl \<Longrightarrow> (c, n) \<in> set cl \<Longrightarrow> lookup_count cl c = n \<and> 0 < n"
  by (auto simp: lookup_count_def list_all_iff)

lemma update_pos:
  "list_all (\<lambda>kv. 0 < snd kv) cl \<Longrightarrow> 0 < n \<Longrightarrow> list_all (\<lambda>kv. 0 < snd kv) (AList.update c n cl)"
  by (induction cl) auto

lemma count_up_pos:
  "list_all (\<lambda>kv. 0 < snd kv) cl \<Longrightarrow> list_all (\<lambda>kv. (0::nat) < snd kv) (count_up c cl)"
proof (cases "map_of cl c")
  case None
  assume a: "list_all (\<lambda>kv. 0 < snd kv) cl"
  have "AList.update c (Suc 0) (AList.update c 0 cl) = AList.update c (Suc 0) cl"
    by simp
  with None a show ?thesis
    by (simp add: count_up_def Let_def AList.update_conv' update_pos)
next
  case (Some n)
  assume a: "list_all (\<lambda>kv. 0 < snd kv) cl"
  with Some show ?thesis
    by (simp add: count_up_def Let_def update_pos)
qed

lemma count_loop_total:
  assumes "list_all (\<lambda>observ. observ < length target) os"
    and "distinct (map fst cl)"
    and "list_all (\<lambda>kv. 0 < snd kv) cl"
  shows "\<exists>cl'. count_loop h data target cell os cl = Inr cl'
           \<and> distinct (map fst cl') \<and> list_all (\<lambda>kv. 0 < snd kv) cl'
           \<and> (\<forall>c. lookup_count cl' c = lookup_count cl c
                 + length (filter (\<lambda>observ. in_cell h cell (rows data ! observ)
                                           \<and> target ! observ = c) os))"
  using assms
proof (induction os arbitrary: cl)
  case Nil
  then show ?case by simp
next
  case (Cons observ os)
  show ?case
  proof (cases "in_cell h cell (rows data ! observ)")
    case True
    from Cons.prems have lt: "observ < length target" and rest: "list_all (\<lambda>observ. observ < length target) os"
      by simp_all
    let ?cl1 = "count_up (target ! observ) cl"
    from Cons.IH [OF rest count_up_distinct [OF Cons.prems(2)] count_up_pos [OF Cons.prems(3)], of "target ! observ"]
    obtain cl' where r: "count_loop h data target cell os ?cl1 = Inr cl'"
      and d: "distinct (map fst cl')" and p: "list_all (\<lambda>kv. 0 < snd kv) cl'"
      and c: "\<forall>c. lookup_count cl' c = lookup_count ?cl1 c
                 + length (filter (\<lambda>observ. in_cell h cell (rows data ! observ)
                                           \<and> target ! observ = c) os)"
      by blast
    from True lt r have "count_loop h data target cell (observ # os) cl = Inr cl'"
      by (simp add: item_def)
    moreover from c True have "\<forall>c. lookup_count cl' c = lookup_count cl c
                 + length (filter (\<lambda>observ. in_cell h cell (rows data ! observ)
                                           \<and> target ! observ = c) (observ # os))"
      by (simp add: count_up_lookup)
    ultimately show ?thesis using d p by blast
  next
    case False
    from Cons.prems have rest: "list_all (\<lambda>observ. observ < length target) os"
      by simp
    from Cons.IH [OF rest Cons.prems(2) Cons.prems(3)] False show ?thesis
      by simp
  qed
qed

lemma tuple_gt_fold:
  "fold (\<lambda>item best. if tuple_gt item best then item else best) xs x = b \<Longrightarrow>
     b \<in> set (x # xs) \<and> list_all (\<lambda>y. \<not> tuple_gt y b) (x # xs)"
proof (induction xs arbitrary: x)
  case Nil
  then show ?case by (simp add: tuple_gt_def)
next
  case (Cons a xs)
  let ?x' = "if tuple_gt a x then a else x"
  from Cons.prems have "fold (\<lambda>item best. if tuple_gt item best then item else best) xs ?x' = b"
    by simp
  from Cons.IH [OF this] have m: "b \<in> set (?x' # xs)" and g: "list_all (\<lambda>y. \<not> tuple_gt y b) (?x' # xs)"
    by simp_all
  from g have "\<not> tuple_gt ?x' b" by simp
  then have "\<not> tuple_gt a b \<and> \<not> tuple_gt x b"
    by (auto simp: tuple_gt_def split: if_splits)
  with m g show ?case by (auto split: if_splits)
qed

lemma py_max_ok:
  "xs \<noteq> [] \<Longrightarrow> \<exists>b. py_max xs = Inr b \<and> b \<in> set xs \<and> list_all (\<lambda>y. \<not> tuple_gt y b) xs"
  by (cases xs) (use tuple_gt_fold in \<open>simp_all\<close>)

lemma zip_swap: "zip (map snd cl) (map fst cl) = map (\<lambda>kv. (snd kv, fst kv)) cl"
  by (induction cl) auto

lemma cell_count_pos:
  "0 < cell_count h data target cell c \<longleftrightarrow>
     (\<exists>observ<length (rows data). in_cell h cell (rows data ! observ) \<and> target ! observ = c)"
  unfolding cell_count_def length_greater_0_conv filter_empty_conv by auto

lemma in_cell_some:
  "(\<exists>observ<length (rows data). in_cell h cell (rows data ! observ)) \<longleftrightarrow>
   (\<exists>c. 0 < cell_count h data target cell c)"
  unfolding cell_count_pos by blast

lemma lookup_count_None: "map_of cl c = None \<Longrightarrow> lookup_count cl c = 0"
  by (simp add: lookup_count_def)

lemma lookup_count_Some: "map_of cl c = Some n \<Longrightarrow> lookup_count cl c = n"
  by (simp add: lookup_count_def)

lemma count_loop_cell_count:
  assumes len: "length (rows data) \<le> length target"
  shows "\<exists>cl. count_loop h data target cell [0..<length (rows data)] [] = Inr cl
           \<and> distinct (map fst cl) \<and> list_all (\<lambda>kv. 0 < snd kv) cl
           \<and> (\<forall>c. lookup_count cl c = cell_count h data target cell c)"
proof -
  from len have a: "list_all (\<lambda>observ. observ < length target) [0..<length (rows data)]"
    by (simp add: list_all_iff)
  have b: "distinct (map fst ([] :: (int \<times> nat) list))" by simp
  have c: "list_all (\<lambda>kv. 0 < snd kv) ([] :: (int \<times> nat) list)" by simp
  have z: "lookup_count [] c = 0" for c by (simp add: lookup_count_def)
  from count_loop_total [OF a b c, of h data cell] show ?thesis
    unfolding cell_count_def z by simp
qed

lemma label_cell_char:
  assumes len: "length (rows data) \<le> length target"
  shows "(label_cell h data target cell = Inr None
            \<and> (\<forall>c. cell_count h data target cell c = 0))
       \<or> (\<exists>n c. label_cell h data target cell = Inr (Some (n, c))
            \<and> cell_count h data target cell c = n \<and> 0 < n
            \<and> (\<forall>c'. cell_count h data target cell c' \<le> n)
            \<and> (\<forall>c'. cell_count h data target cell c' = n \<longrightarrow> c' \<le> c))"
proof -
  from count_loop_cell_count [OF len, of h cell]
  obtain cl where r: "count_loop h data target cell [0..<length (rows data)] [] = Inr cl"
    and d: "distinct (map fst cl)" and p: "list_all (\<lambda>kv. 0 < snd kv) cl"
    and c: "\<And>c. lookup_count cl c = cell_count h data target cell c"
    by blast
  show ?thesis
  proof (cases "cl = []")
    case True
    have "cell_count h data target cell c = 0" for c
      using c [of c] True by (simp add: lookup_count_def)
    moreover from r True have "label_cell h data target cell = Inr None"
      by (simp add: label_cell_def)
    ultimately show ?thesis by blast
  next
    case False
    then have "zip (map snd cl) (map fst cl) \<noteq> []" by (cases cl) auto
    from py_max_ok [OF this] obtain b where
      b: "py_max (zip (map snd cl) (map fst cl)) = Inr b"
      and bm: "b \<in> set (zip (map snd cl) (map fst cl))"
      and bg: "list_all (\<lambda>y. \<not> tuple_gt y b) (zip (map snd cl) (map fst cl))"
      by blast
    from bm have m: "(snd b, fst b) \<in> set cl"
      unfolding zip_swap by auto
    from lookup_count_pos [OF d p m] c [of "snd b"]
    have cnt: "cell_count h data target cell (snd b) = fst b" and pos: "0 < fst b"
      by simp_all
    have le: "cell_count h data target cell c' \<le> fst b
              \<and> (cell_count h data target cell c' = fst b \<longrightarrow> c' \<le> snd b)" for c'
    proof (cases "map_of cl c'")
      case None
      from lookup_count_None [OF None] c [of c'] have "cell_count h data target cell c' = 0"
        by simp
      with pos show ?thesis by simp
    next
      case (Some n')
      then have in': "(c', n') \<in> set cl" by (rule map_of_SomeD)
      from lookup_count_Some [OF Some] c [of c'] have n': "cell_count h data target cell c' = n'"
        by simp
      from in' have "(n', c') \<in> set (zip (map snd cl) (map fst cl))"
        unfolding zip_swap by force
      with bg have "\<not> tuple_gt (n', c') b"
        by (simp add: list_all_iff)
      with n' show ?thesis
        by (auto simp: tuple_gt_def)
    qed
    from r False b have "label_cell h data target cell = Inr (Some (fst b, snd b))"
      by (simp add: label_cell_def)
    with cnt pos le show ?thesis by blast
  qed
qed

lemma label_loop_map_of:
  assumes len: "length (rows data) \<le> length target"
  shows "\<exists>rs'. label_loop h data target min_obs cells rs = Inr rs'
           \<and> (\<forall>cell. map_of rs' cell =
                 (if cell \<in> set cells
                  then (case label_cell h data target cell of
                          Inr (Some (n, c)) \<Rightarrow> if min_obs \<le> int n then Some c else map_of rs cell
                        | _ \<Rightarrow> map_of rs cell)
                  else map_of rs cell))"
proof (induction cells arbitrary: rs)
  case Nil
  show ?case by simp
next
  case (Cons cell cells)
  from label_cell_char [OF len, of h cell]
  consider (empty) "label_cell h data target cell = Inr None"
    | (some) n c where "label_cell h data target cell = Inr (Some (n, c))"
    by blast
  then show ?case
  proof cases
    case empty
    from Cons.IH [of rs] obtain rs' where
      r: "label_loop h data target min_obs cells rs = Inr rs'"
      and m: "\<forall>cell. map_of rs' cell =
                 (if cell \<in> set cells
                  then (case label_cell h data target cell of
                          Inr (Some (n, c)) \<Rightarrow> if min_obs \<le> int n then Some c else map_of rs cell
                        | _ \<Rightarrow> map_of rs cell)
                  else map_of rs cell)"
      by blast
    from r empty have "label_loop h data target min_obs (cell # cells) rs = Inr rs'"
      by simp
    moreover from m empty have "\<forall>cell'. map_of rs' cell' =
                 (if cell' \<in> set (cell # cells)
                  then (case label_cell h data target cell' of
                          Inr (Some (n, c)) \<Rightarrow> if min_obs \<le> int n then Some c else map_of rs cell'
                        | _ \<Rightarrow> map_of rs cell')
                  else map_of rs cell')"
      by auto
    ultimately show ?thesis by blast
  next
    case some
    let ?rs1 = "if min_obs \<le> int n then AList.update cell c rs else rs"
    from Cons.IH [of ?rs1] obtain rs' where
      r: "label_loop h data target min_obs cells ?rs1 = Inr rs'"
      and m: "\<forall>cell'. map_of rs' cell' =
                 (if cell' \<in> set cells
                  then (case label_cell h data target cell' of
                          Inr (Some (n, c)) \<Rightarrow> if min_obs \<le> int n then Some c else map_of ?rs1 cell'
                        | _ \<Rightarrow> map_of ?rs1 cell')
                  else map_of ?rs1 cell')"
      by blast
    from r some have "label_loop h data target min_obs (cell # cells) rs = Inr rs'"
      by (cases "min_obs \<le> int n") simp_all
    moreover have "map_of rs' cell' =
                 (if cell' \<in> set (cell # cells)
                  then (case label_cell h data target cell' of
                          Inr (Some (n, c)) \<Rightarrow> if min_obs \<le> int n then Some c else map_of rs cell'
                        | _ \<Rightarrow> map_of rs cell')
                  else map_of rs cell')" for cell'
    proof (cases "cell' = cell")
      case True
      with m [rule_format, of cell] some show ?thesis
        by (simp add: AList.update_conv')
    next
      case False
      with m [rule_format, of cell'] show ?thesis
        by (simp add: AList.update_conv' split: sum.splits option.splits prod.splits)
    qed
    ultimately show ?thesis by blast
  qed
qed

subsection \<open>The class of a grid cell\<close>

text \<open>
  C3 fails as stated.  In the column \<open>0\<close>, \<open>0\<close>, \<open>7\<close> with labels \<open>0\<close>, \<open>1\<close>, \<open>1\<close> the cell of
  function \<open>0\<close> holds one observation of class \<open>0\<close> and one of class \<open>1\<close>.  The dictionary of
  class counts enumerates class \<open>0\<close> first, but the cell is given class \<open>1\<close>: the maximum
  is taken over pairs \<open>(count, class)\<close>, so among equal counts the greater label wins.
\<close>

theorem tie_goes_to_greater_label_not_first:
  "build_mfs tie_data [0..<ncols tie_data] empty_heap
     = Inr ([[0, 1, 2, 3, 4]], built_heap tie_data) \<and>
   count_loop (built_heap tie_data) tie_data ex_target [0] [0..<length (rows tie_data)] []
     = Inr [(0, 1), (1, 1)] \<and>
   first_enumerated_max [(0, 1), (1, 1)] = 0 \<and>
   label_cell (built_heap tie_data) tie_data ex_target [0] = Inr (Some (1, 1))"
  by (simp add: built_heap_def tie_data_def ex_target_def first_enumerated_max_def eval_defs)

text \<open>
  C3, amended.  When the label vector covers every row, a cell that holds at least one
  observation is given a class whose observation count in the cell is the greatest; when
  several classes reach that count, the greatest class label among them is chosen.
\<close>

theorem label_cell_greatest_count_greatest_label:
  assumes "length (rows data) \<le> length target"
    and "observ < length (rows data)"
    and "in_cell h intersection (rows data ! observ)"
  shows "\<exists>n c. label_cell h data target intersection = Inr (Some (n, c))
           \<and> cell_count h data target intersection c = n
           \<and> (\<forall>c'. cell_count h data target intersection c' \<le> n)
           \<and> (\<forall>c'. cell_count h data target intersection c' = n \<longrightarrow> c' \<le> c)"
proof -
  from assms(2,3) have "0 < cell_count h data target intersection (target ! observ)"
    unfolding cell_count_pos by blast
  then have "\<not> (\<forall>c. cell_count h data target intersection c = 0)"
    by (metis less_irrefl)
  with label_cell_char [OF assms(1), of h intersection] show ?thesis
    by blast
qed

theorem label_cell_greatest_count_greatest_label_witness:
  "length (rows tie_data) \<le> length ex_target \<and> 0 < length (rows tie_data) \<and>
   in_cell (built_heap tie_data) [0] (rows tie_data ! 0) \<and>
   (\<exists>n c. label_cell (built_heap tie_data) tie_data ex_target [0] = Inr (Some (n, c))
           \<and> cell_count (built_heap tie_data) tie_data ex_target [0] c = n
           \<and> (\<forall>c'. cell_count (built_heap tie_data) tie_data ex_target [0] c' \<le> n)
           \<and> (\<forall>c'. cell_count (built_heap tie_data) tie_data ex_target [0] c' = n \<longrightarrow> c' \<le> c))"
proof -
  have a: "length (rows tie_data) \<le> length ex_target"
    by (simp add: tie_data_def ex_target_def)
  have b: "0 < length (rows tie_data)"
    by (simp add: tie_data_def)
  have c: "in_cell (built_heap tie_data) [0] (rows tie_data ! 0)"
    by (simp add: built_heap_def tie_data_def eval_defs)
  from label_cell_greatest_count_greatest_label [OF a b c] a b c show ?thesis
    by blast
qed

subsection \<open>Which candidates become rules\<close>

text \<open>
  C6.  When the label vector covers every row, the loop over the grid cells succeeds, and
  a cell is a key of the resulting rule dictionary if and only if it is one of the
  candidates, some observation lies inside it (every feature's value within the closed
  interval from \<open>low.x\<close> to \<open>high.x\<close>), and the observation count of a dominant class is at
  least \<open>min_observations_per_rule\<close>.
\<close>

theorem rule_kept_iff_supported:
  assumes len: "length (rows data) \<le> length target"
  shows "\<exists>rs. label_loop h data target min_obs intersections [] = Inr rs
           \<and> (\<forall>cell. cell \<in> fst ` set rs \<longleftrightarrow>
                 cell \<in> set intersections
                 \<and> (\<exists>observ<length (rows data). in_cell h cell (rows data ! observ))
                 \<and> (\<exists>c. (\<forall>c'. cell_count h data target cell c'
                                 \<le> cell_count h data target cell c)
                        \<and> min_obs \<le> int (cell_count h data target cell c)))"
proof -
  from label_loop_map_of [OF len, of h min_obs intersections "[]"]
  obtain rs where r: "label_loop h data target min_obs intersections [] = Inr rs"
    and m0: "\<forall>cell. map_of rs cell =
                 (if cell \<in> set intersections
                  then (case label_cell h data target cell of
                          Inr (Some (n, c)) \<Rightarrow>
                            if min_obs \<le> int n then Some c else map_of [] cell
                        | _ \<Rightarrow> map_of [] cell)
                  else map_of [] cell)"
    by blast
  have m: "map_of rs cell =
                 (if cell \<in> set intersections
                  then (case label_cell h data target cell of
                          Inr (Some (n, c)) \<Rightarrow> if min_obs \<le> int n then Some c else None
                        | _ \<Rightarrow> None)
                  else None)" for cell
    using m0 [rule_format, of cell] by (simp split: sum.splits option.splits prod.splits)
  have "cell \<in> fst ` set rs \<longleftrightarrow>
                 cell \<in> set intersections
                 \<and> (\<exists>observ<length (rows data). in_cell h cell (rows data ! observ))
                 \<and> (\<exists>c. (\<forall>c'. cell_count h data target cell c'
                                 \<le> cell_count h data target cell c)
                        \<and> min_obs \<le> int (cell_count h data target cell c))" for cell
  proof -
    have k: "cell \<in> fst ` set rs \<longleftrightarrow> map_of rs cell \<noteq> None"
      by (simp add: map_of_eq_None_iff)
    from label_cell_char [OF len, of h cell]
    consider (empty) "label_cell h data target cell = Inr None"
        "\<forall>c. cell_count h data target cell c = 0"
      | (some) n c where "label_cell h data target cell = Inr (Some (n, c))"
        "cell_count h data target cell c = n" "0 < n"
        "\<forall>c'. cell_count h data target cell c' \<le> n"
      by blast
    then show ?thesis
    proof cases
      case empty
      from empty(2) have "\<not> (\<exists>observ<length (rows data). in_cell h cell (rows data ! observ))"
        unfolding in_cell_some [of data h cell target] by simp
      moreover from empty(1) have "map_of rs cell = None"
        by (simp add: m)
      ultimately show ?thesis using k by blast
    next
      case some
      from some(2,3) have ex: "\<exists>observ<length (rows data). in_cell h cell (rows data ! observ)"
        unfolding in_cell_some [of data h cell target] by blast
      have dom: "(\<exists>c. (\<forall>c'. cell_count h data target cell c'
                                 \<le> cell_count h data target cell c)
                        \<and> min_obs \<le> int (cell_count h data target cell c))
                 \<longleftrightarrow> min_obs \<le> int n"
      proof
        assume "\<exists>c. (\<forall>c'. cell_count h data target cell c'
                                 \<le> cell_count h data target cell c)
                        \<and> min_obs \<le> int (cell_count h data target cell c)"
        then obtain c0 where c0: "min_obs \<le> int (cell_count h data target cell c0)"
          by blast
        from some(4) have "cell_count h data target cell c0 \<le> n" by blast
        with c0 show "min_obs \<le> int n" by linarith
      next
        assume "min_obs \<le> int n"
        with some(2,4) show "\<exists>c. (\<forall>c'. cell_count h data target cell c'
                                 \<le> cell_count h data target cell c)
                        \<and> min_obs \<le> int (cell_count h data target cell c)"
          by blast
      qed
      from some(1) have "map_of rs cell \<noteq> None \<longleftrightarrow> cell \<in> set intersections \<and> min_obs \<le> int n"
        by (simp add: m)
      with k ex dom show ?thesis by blast
    qed
  qed
  with r show ?thesis by blast
qed

theorem rule_kept_iff_supported_witness:
  "length (rows ex_data) \<le> length ex_target \<and>
   (\<exists>rs. label_loop (built_heap ex_data) ex_data ex_target 1 [[0], [1], [2], [3], [4]] [] = Inr rs
      \<and> (\<forall>cell. cell \<in> fst ` set rs \<longleftrightarrow>
            cell \<in> set [[0], [1], [2], [3], [4]]
            \<and> (\<exists>observ<length (rows ex_data).
                  in_cell (built_heap ex_data) cell (rows ex_data ! observ))
            \<and> (\<exists>c. (\<forall>c'. cell_count (built_heap ex_data) ex_data ex_target cell c'
                            \<le> cell_count (built_heap ex_data) ex_data ex_target cell c)
                   \<and> 1 \<le> int (cell_count (built_heap ex_data) ex_data ex_target cell c))))"
proof -
  have a: "length (rows ex_data) \<le> length ex_target"
    by (simp add: ex_data_def ex_target_def)
  from rule_kept_iff_supported [OF a, of "built_heap ex_data" 1 "[[0], [1], [2], [3], [4]]"] a
  show ?thesis by blast
qed

subsection \<open>Activation and the two scans\<close>

lemma maximal_by_nonempty:
  assumes "xs \<noteq> []"
  shows "maximal_by score xs \<noteq> []"
proof -
  from assms have fin: "finite (score ` set xs)" and ne: "score ` set xs \<noteq> {}"
    by simp_all
  from Max_in [OF fin ne] obtain x where x: "x \<in> set xs" "score x = Max (score ` set xs)"
    by auto
  have "list_all (\<lambda>y. score y \<le> score x) xs"
    unfolding list_all_iff using x(2) fin by simp
  with x(1) have "x \<in> set (maximal_by score xs)"
    by (simp add: maximal_by_def)
  then show ?thesis by auto
qed

lemma maximal_by_subset: "set (maximal_by score xs) \<subseteq> set xs"
  by (auto simp: maximal_by_def)



lemma maximal_by_only:
  assumes "list_all (\<lambda>y. score y < score x) xs"
  shows "maximal_by score (x # xs) = [x]"
proof -
  from assms have a: "list_all (\<lambda>y. score y \<le> score x) (x # xs)"
    by (auto simp: list_all_iff intro: less_imp_le)
  have "filter (\<lambda>z. list_all (\<lambda>y. score y \<le> score z) (x # xs)) xs = []"
    unfolding filter_empty_conv
  proof
    fix z assume "z \<in> set xs"
    with assms have "score z < score x" by (simp add: list_all_iff)
    then show "\<not> list_all (\<lambda>y. score y \<le> score z) (x # xs)" by simp
  qed
  with a show ?thesis
    unfolding maximal_by_def by simp
qed

lemma maximal_by_last:
  assumes "y \<in> set xs" and "score x \<le> score y"
  shows "last (maximal_by score (x # xs)) = last (maximal_by score xs)"
proof -
  have eq: "filter (\<lambda>z. list_all (\<lambda>y. score y \<le> score z) (x # xs)) xs
          = filter (\<lambda>z. list_all (\<lambda>y. score y \<le> score z) xs) xs"
  proof (rule filter_cong [OF refl])
    fix z assume "z \<in> set xs"
    show "list_all (\<lambda>y. score y \<le> score z) (x # xs) = list_all (\<lambda>y. score y \<le> score z) xs"
    proof
      assume "list_all (\<lambda>y. score y \<le> score z) xs"
      with assms have "score x \<le> score z"
        by (force simp: list_all_iff)
      with \<open>list_all (\<lambda>y. score y \<le> score z) xs\<close>
      show "list_all (\<lambda>y. score y \<le> score z) (x # xs)" by simp
    qed simp
  qed
  from assms(1) have "xs \<noteq> []" by auto
  from maximal_by_nonempty [OF this, of score]
  have ne: "filter (\<lambda>z. list_all (\<lambda>y. score y \<le> score z) xs) xs \<noteq> []"
    by (simp add: maximal_by_def)
  have "maximal_by score (x # xs) =
          (if list_all (\<lambda>y. score y \<le> score x) (x # xs) then [x] else [])
          @ filter (\<lambda>z. list_all (\<lambda>y. score y \<le> score z) (x # xs)) xs"
    by (simp add: maximal_by_def)
  with eq ne show ?thesis
    by (simp add: maximal_by_def)
qed

lemma not_all_less: "\<not> list_all (\<lambda>r. score r < (b::real)) rs \<Longrightarrow> \<exists>y\<in>set rs. b \<le> score y"
  by (auto simp: list_all_iff not_less)


lemma test_scan_char:
  assumes "list_all (\<lambda>r. activation rnd fuzzyfy h data obs (fst r) = Inr (score r)) rs"
  shows "test_scan rnd fuzzyfy h data obs rs best =
           Inr (if list_all (\<lambda>r. score r < fst best) rs then best
                else (score (last (maximal_by score rs)), snd (last (maximal_by score rs))))"
  using assms
proof (induction rs arbitrary: best)
  case Nil
  show ?case by simp
next
  case (Cons r rest)
  obtain mfs target_class where r: "r = (mfs, target_class)" by (cases r)
  from Cons.prems r have act: "activation rnd fuzzyfy h data obs mfs = Inr (score r)"
    and rest: "list_all (\<lambda>r. activation rnd fuzzyfy h data obs (fst r) = Inr (score r)) rest"
    by simp_all
  note IH = Cons.IH [OF rest]
  show ?case
  proof (cases "fst best \<le> score r")
    case True
    then have step: "test_scan rnd fuzzyfy h data obs (r # rest) best
                = test_scan rnd fuzzyfy h data obs rest (score r, target_class)"
      by (simp add: r act)
    show ?thesis
    proof (cases "list_all (\<lambda>y. score y < score r) rest")
      case all: True
      from maximal_by_only [OF all] True all show ?thesis
        unfolding step IH by (simp add: r)
    next
      case False
      from not_all_less [OF False] obtain y where "y \<in> set rest" "score r \<le> score y"
        by blast
      from maximal_by_last [OF this] True False show ?thesis
        unfolding step IH by simp
    qed
  next
    case False
    then have step: "test_scan rnd fuzzyfy h data obs (r # rest) best
                = test_scan rnd fuzzyfy h data obs rest best"
      by (simp add: r act)
    show ?thesis
    proof (cases "list_all (\<lambda>y. score y < fst best) rest")
      case all: True
      with False show ?thesis
        unfolding step IH by simp
    next
      case nall: False
      from not_all_less [OF nall] obtain y where y: "y \<in> set rest" "fst best \<le> score y"
        by blast
      with False have "score r \<le> score y" by simp
      from maximal_by_last [OF y(1) this] False nall show ?thesis
        unfolding step IH by simp
    qed
  qed
qed


subsection \<open>What repair does to one function\<close>

lemma find_neighbour_char:
  assumes "feature < length rule"
    and "list_all (\<lambda>other. feature < length other) others"
    and "fst nd = None \<and> snd nd = None \<or> fst nd = Some (rule ! feature) \<and> snd nd \<noteq> Some 0"
  shows "\<exists>nd'. find_neighbour h feature rule others nd = Inr nd'
           \<and> (fst nd' = None \<and> snd nd' = None
                \<or> fst nd' = Some (rule ! feature) \<and> snd nd' \<noteq> Some 0)
           \<and> (fst nd' = None \<longleftrightarrow>
                fst nd = None \<and> \<not> list_ex (\<lambda>other. high_x h (rule ! feature)
                                                       < mid_x h (other ! feature)) others)"
  using assms(2,3)
proof (induction others arbitrary: nd)
  case Nil
  then show ?case by simp
next
  case (Cons other others)
  let ?m = "rule ! feature"
  let ?d = "mid_x h (other ! feature) - high_x h ?m"
  from Cons.prems(1) have o: "feature < length other"
    and rest: "list_all (\<lambda>other. feature < length other) others"
    by simp_all
  show ?case
  proof (cases "high_x h ?m < mid_x h (other ! feature) \<and> lt_dist ?d (snd nd)")
    case True
    with assms(1) o have step: "find_neighbour h feature rule (other # others) nd
        = find_neighbour h feature rule others (Some ?m, Some ?d)"
      by (simp add: item_def)
    from True have inv1: "fst (Some ?m, Some ?d) = None \<and> snd (Some ?m, Some ?d) = None
        \<or> fst (Some ?m, Some ?d) = Some ?m \<and> snd (Some ?m, Some ?d) \<noteq> Some 0"
      by simp
    from Cons.IH [OF rest inv1] obtain nd' where
      all: "find_neighbour h feature rule others (Some ?m, Some ?d) = Inr nd'
        \<and> (fst nd' = None \<and> snd nd' = None \<or> fst nd' = Some ?m \<and> snd nd' \<noteq> Some 0)
        \<and> (fst nd' = None \<longleftrightarrow>
        fst (Some ?m, Some ?d) = None
          \<and> \<not> list_ex (\<lambda>other. high_x h ?m < mid_x h (other ! feature)) others)"
      by (rule exE)
    note r = all [THEN conjunct1]
    note i = all [THEN conjunct2, THEN conjunct1]
    from all [THEN conjunct2, THEN conjunct2] have n: "fst nd' \<noteq> None" by simp
    from True have "list_ex (\<lambda>other. high_x h ?m < mid_x h (other ! feature)) (other # others)"
      by simp
    with n have k: "fst nd' = None \<longleftrightarrow>
        fst nd = None \<and> \<not> list_ex (\<lambda>other. high_x h ?m < mid_x h (other ! feature))
                               (other # others)"
      by simp
    show ?thesis unfolding step
      by (rule exI [where x = nd']) (rule conjI [OF r conjI [OF i k]])
  next
    case False
    with assms(1) o have step: "find_neighbour h feature rule (other # others) nd
        = find_neighbour h feature rule others nd"
      by (auto simp: item_def)
    from Cons.IH [OF rest Cons.prems(2)] obtain nd' where
      all: "find_neighbour h feature rule others nd = Inr nd'
        \<and> (fst nd' = None \<and> snd nd' = None \<or> fst nd' = Some ?m \<and> snd nd' \<noteq> Some 0)
        \<and> (fst nd' = None \<longleftrightarrow>
        fst nd = None \<and> \<not> list_ex (\<lambda>other. high_x h ?m < mid_x h (other ! feature)) others)"
      by (rule exE)
    note r = all [THEN conjunct1]
    note i = all [THEN conjunct2, THEN conjunct1]
    note n = all [THEN conjunct2, THEN conjunct2]
    have "fst nd = None \<Longrightarrow> \<not> high_x h ?m < mid_x h (other ! feature)"
    proof -
      assume "fst nd = None"
      with Cons.prems(2) have "snd nd = None" by simp
      then have "lt_dist ?d (snd nd)" by (simp add: lt_dist_def)
      with False show ?thesis by simp
    qed
    with n have k: "fst nd' = None \<longleftrightarrow>
        fst nd = None \<and> \<not> list_ex (\<lambda>other. high_x h ?m < mid_x h (other ! feature))
                               (other # others)"
      by auto
    show ?thesis unfolding step
      by (rule exI [where x = nd']) (rule conjI [OF r conjI [OF i k]])
  qed
qed

lemma merge_points_self: "merge_points m m h = collapse m h"
  by (simp add: merge_points_def collapse_def Let_def)

lemma repair_rule_char:
  assumes "feature < length rule"
    and "list_all (\<lambda>other. feature < length other) keys"
  shows "repair_rule feature keys rule h =
           Inr (if has_right h feature keys (rule ! feature) then collapse (rule ! feature) h
                else h)"
proof -
  have inv0: "fst (None :: nat option, None :: real option) = None
                \<and> snd (None :: nat option, None :: real option) = None
              \<or> fst (None :: nat option, None :: real option) = Some (rule ! feature)
                \<and> snd (None :: nat option, None :: real option) \<noteq> Some 0"
    by simp
  from find_neighbour_char [OF assms inv0, of h] obtain nd' where
    all: "find_neighbour h feature rule keys (None, None) = Inr nd'
      \<and> (fst nd' = None \<and> snd nd' = None
           \<or> fst nd' = Some (rule ! feature) \<and> snd nd' \<noteq> Some 0)
      \<and> (fst nd' = None \<longleftrightarrow>
           fst (None :: nat option, None :: real option) = None
           \<and> \<not> list_ex (\<lambda>other. high_x h (rule ! feature) < mid_x h (other ! feature)) keys)"
    by (rule exE)
  note r = all [THEN conjunct1]
  note i = all [THEN conjunct2, THEN conjunct1]
  from all [THEN conjunct2, THEN conjunct2]
  have n: "fst nd' = None \<longleftrightarrow> \<not> has_right h feature keys (rule ! feature)"
    by (simp add: has_right_def)
  obtain nb ds where nd': "nd' = (nb, ds)" by (cases nd')
  show ?thesis
  proof (cases "has_right h feature keys (rule ! feature)")
    case True
    with n i nd' have "nb = Some (rule ! feature)" and "ds \<noteq> Some 0"
      by auto
    with r nd' True assms(1) show ?thesis
      by (simp add: repair_rule_def item_def merge_points_self)
  next
    case False
    with n nd' have "nb = None" by simp
    with r nd' False show ?thesis
      by (simp add: repair_rule_def)
  qed
qed

lemma collapse_point_x [simp]: "point_x (collapse m h) = point_x h"
  by (simp add: collapse_def)

lemma collapse_mid [simp]: "mid (mf_at (collapse m h) m') = mid (mf_at h m')"
  by (simp add: collapse_def)

lemma collapse_mid_x [simp]: "mid_x (collapse m h) m' = mid_x h m'"
  by (simp add: mid_x_def)

lemma collapse_other: "m' \<noteq> m \<Longrightarrow> mf_at (collapse m h) m' = mf_at h m'"
  by (simp add: collapse_def)

lemma collapse_high_x_other: "m' \<noteq> m \<Longrightarrow> high_x (collapse m h) m' = high_x h m'"
  by (simp add: high_x_def collapse_other)

lemma collapsed_collapse: "collapsed (collapse m h) m"
  by (simp add: collapsed_def collapse_def)

lemma collapsed_other: "m' \<noteq> m \<Longrightarrow> collapsed (collapse m h) m' = collapsed h m'"
  by (simp add: collapsed_def collapse_other)

lemma collapse_id:
  assumes "collapsed h m"
  shows "collapse m h = h"
proof -
  from assms have "(mf_at h m)\<lparr>low := mid (mf_at h m), high := mid (mf_at h m)\<rparr> = mf_at h m"
    by (cases "mf_at h m") (simp add: collapsed_def)
  then show ?thesis by (simp add: collapse_def)
qed

lemma has_right_other:
  "m' \<noteq> m \<Longrightarrow> has_right (collapse m h) feature keys m' = has_right h feature keys m'"
  by (simp add: has_right_def collapse_high_x_other)

lemma settled_collapse:
  assumes "settled h keys feature m'"
  shows "settled (collapse m h) keys feature m'"
proof (cases "m' = m")
  case True
  then show ?thesis by (simp add: settled_def collapsed_collapse)
next
  case False
  with assms show ?thesis
    by (simp add: settled_def has_right_other collapsed_other)
qed

lemma settled_step:
  "settled (if has_right h feature keys m then collapse m h else h) keys feature m"
  by (simp add: settled_def collapsed_collapse)

lemma repair_rule_settles:
  assumes "feature < length rule"
    and "list_all (\<lambda>other. feature < length other) keys"
  shows "\<exists>h'. repair_rule feature keys rule h = Inr h'
           \<and> settled h' keys feature (rule ! feature)
           \<and> (\<forall>f m. settled h keys f m \<longrightarrow> settled h' keys f m)"
  unfolding repair_rule_char [OF assms]
  by (auto simp: settled_step settled_collapse)

lemma repair_rule_fixed:
  assumes "feature < length rule"
    and "list_all (\<lambda>other. feature < length other) keys"
    and "settled h keys feature (rule ! feature)"
  shows "repair_rule feature keys rule h = Inr h"
  unfolding repair_rule_char [OF assms(1,2)]
  using assms(3) by (simp add: settled_def collapse_id)

subsection \<open>A second repair changes nothing\<close>

lemma repair_rules_settles:
  assumes "list_all (\<lambda>other. feature < length other) keys"
    and "list_all (\<lambda>r. feature < length r) rs"
  shows "\<exists>h'. repair_rules feature keys rs h = Inr h'
           \<and> list_all (\<lambda>r. settled h' keys feature (r ! feature)) rs
           \<and> (\<forall>f m. settled h keys f m \<longrightarrow> settled h' keys f m)"
  using assms(2)
proof (induction rs arbitrary: h)
  case Nil
  show ?case by simp
next
  case (Cons rule rs)
  from Cons.prems have len: "feature < length rule" and rest: "list_all (\<lambda>r. feature < length r) rs"
    by simp_all
  from repair_rule_settles [OF len assms(1), of h] obtain h1 where
    a1: "repair_rule feature keys rule h = Inr h1
           \<and> settled h1 keys feature (rule ! feature)
           \<and> (\<forall>f m. settled h keys f m \<longrightarrow> settled h1 keys f m)"
    by (rule exE)
  from Cons.IH [OF rest, of h1] obtain h' where
    a2: "repair_rules feature keys rs h1 = Inr h'
           \<and> list_all (\<lambda>r. settled h' keys feature (r ! feature)) rs
           \<and> (\<forall>f m. settled h1 keys f m \<longrightarrow> settled h' keys f m)"
    by (rule exE)
  from a1 a2 have r: "repair_rules feature keys (rule # rs) h = Inr h'"
    by simp
  from a1 a2 have s: "list_all (\<lambda>r. settled h' keys feature (r ! feature)) (rule # rs)"
    by simp
  from a1 a2 have p: "\<forall>f m. settled h keys f m \<longrightarrow> settled h' keys f m"
    by simp
  show ?case
    by (rule exI [where x = h']) (rule conjI [OF r conjI [OF s p]])
qed

lemma repair_features_settles:
  assumes "list_all (\<lambda>f. list_all (\<lambda>r. f < length r) keys) feats"
  shows "\<exists>h'. repair_features keys feats h = Inr h'
           \<and> list_all (\<lambda>f. list_all (\<lambda>r. settled h' keys f (r ! f)) keys) feats
           \<and> (\<forall>f m. settled h keys f m \<longrightarrow> settled h' keys f m)"
  using assms
proof (induction feats arbitrary: h)
  case Nil
  show ?case by simp
next
  case (Cons feature feats)
  from Cons.prems have len: "list_all (\<lambda>r. feature < length r) keys"
    and rest: "list_all (\<lambda>f. list_all (\<lambda>r. f < length r) keys) feats"
    by simp_all
  from repair_rules_settles [OF len len, of h] obtain h1 where
    a1: "repair_rules feature keys keys h = Inr h1
           \<and> list_all (\<lambda>r. settled h1 keys feature (r ! feature)) keys
           \<and> (\<forall>f m. settled h keys f m \<longrightarrow> settled h1 keys f m)"
    by (rule exE)
  from Cons.IH [OF rest, of h1] obtain h' where
    a2: "repair_features keys feats h1 = Inr h'
           \<and> list_all (\<lambda>f. list_all (\<lambda>r. settled h' keys f (r ! f)) keys) feats
           \<and> (\<forall>f m. settled h1 keys f m \<longrightarrow> settled h' keys f m)"
    by (rule exE)
  from a1 a2 have r: "repair_features keys (feature # feats) h = Inr h'"
    by simp
  from a1 a2 have "list_all (\<lambda>r. settled h' keys feature (r ! feature)) keys"
    by (simp add: list_all_iff)
  with a2 have s: "list_all (\<lambda>f. list_all (\<lambda>r. settled h' keys f (r ! f)) keys) (feature # feats)"
    by simp
  from a1 a2 have p: "\<forall>f m. settled h keys f m \<longrightarrow> settled h' keys f m"
    by simp
  show ?case
    by (rule exI [where x = h']) (rule conjI [OF r conjI [OF s p]])
qed

lemma repair_rules_fixed:
  assumes "list_all (\<lambda>other. feature < length other) keys"
    and "list_all (\<lambda>r. feature < length r) rs"
    and "list_all (\<lambda>r. settled h keys feature (r ! feature)) rs"
  shows "repair_rules feature keys rs h = Inr h"
  using assms(2,3)
proof (induction rs)
  case Nil
  show ?case by simp
next
  case (Cons rule rs)
  from Cons.prems have "feature < length rule" and "settled h keys feature (rule ! feature)"
    by simp_all
  from repair_rule_fixed [OF this(1) assms(1) this(2)] Cons show ?case
    by simp
qed

lemma repair_features_fixed:
  assumes "list_all (\<lambda>f. list_all (\<lambda>r. f < length r) keys) feats"
    and "list_all (\<lambda>f. list_all (\<lambda>r. settled h keys f (r ! f)) keys) feats"
  shows "repair_features keys feats h = Inr h"
  using assms
proof (induction feats)
  case Nil
  show ?case by simp
next
  case (Cons feature feats)
  from Cons.prems have len: "list_all (\<lambda>r. feature < length r) keys"
    and s: "list_all (\<lambda>r. settled h keys feature (r ! feature)) keys"
    by simp_all
  from repair_rules_fixed [OF len len s] Cons show ?case
    by simp
qed

lemma repair_rule_Inr_length:
  assumes "keys \<noteq> []" and "repair_rule feature keys rule h = Inr h1"
  shows "feature < length rule"
proof (rule ccontr)
  assume "\<not> feature < length rule"
  then have "item rule feature = Inl IndexError" by (simp add: item_def)
  with assms(1) have "find_neighbour h feature rule keys (None, None) = Inl IndexError"
    by (cases keys) simp_all
  with assms(2) show False by (simp add: repair_rule_def)
qed

lemma repair_rules_Inr_length:
  assumes "keys \<noteq> []"
  shows "repair_rules feature keys rs h = Inr h1 \<Longrightarrow> list_all (\<lambda>r. feature < length r) rs"
proof (induction rs arbitrary: h)
  case Nil
  show ?case by simp
next
  case (Cons rule rs)
  from Cons.prems obtain h2 where a: "repair_rule feature keys rule h = Inr h2"
    and b: "repair_rules feature keys rs h2 = Inr h1"
    by (cases "repair_rule feature keys rule h") simp_all
  from repair_rule_Inr_length [OF assms a] Cons.IH [OF b] show ?case
    by simp
qed

lemma repair_features_Inr_length:
  assumes "keys \<noteq> []"
  shows "repair_features keys feats h = Inr h1
           \<Longrightarrow> list_all (\<lambda>f. list_all (\<lambda>r. f < length r) keys) feats"
proof (induction feats arbitrary: h)
  case Nil
  show ?case by simp
next
  case (Cons feature feats)
  from Cons.prems obtain h2 where a: "repair_rules feature keys keys h = Inr h2"
    and b: "repair_features keys feats h2 = Inr h1"
    by (cases "repair_rules feature keys keys h") simp_all
  from repair_rules_Inr_length [OF assms a] Cons.IH [OF b] show ?case
    by simp
qed

lemma repair_features_no_keys: "repair_features [] feats h = Inr h"
  by (induction feats) simp_all

lemma repair_features_idem:
  assumes "repair_features keys feats h = Inr h'"
  shows "repair_features keys feats h' = Inr h'"
proof (cases "keys = []")
  case True
  with assms show ?thesis by (simp add: repair_features_no_keys)
next
  case False
  from repair_features_Inr_length [OF False assms]
  have len: "list_all (\<lambda>f. list_all (\<lambda>r. f < length r) keys) feats" .
  from repair_features_settles [OF len, of h] assms
  have "list_all (\<lambda>f. list_all (\<lambda>r. settled h' keys f (r ! f)) keys) feats"
    by simp
  from repair_features_fixed [OF len this] show ?thesis .
qed

text \<open>
  C8.  Whenever repair returns, running it again on the resulting heap returns the same
  heap: every function keeps its three vertices and every vertex its position.  Repair
  does not touch the rule dictionary, so the keys and their classes are the same as well.
\<close>

theorem repair_idempotent:
  assumes "repair nb nfs h = Inr h'"
  shows "repair nb nfs h' = Inr h'"
proof (cases "rules nfs")
  case None
  with assms have "nb = 0" and "h' = h"
    by (simp_all add: repair_def split: if_splits)
  with None show ?thesis by (simp add: repair_def)
next
  case (Some rs)
  with assms have "repair_features (map fst rs) [0..<nb] h = Inr h'"
    by (simp add: repair_def)
  from repair_features_idem [OF this] Some show ?thesis
    by (simp add: repair_def)
qed

theorem repair_idempotent_witness:
  "repair 1 ((init 10 1)\<lparr>rules := Some ex_rules\<rparr>) (built_heap ex_data)
     = Inr (collapse 0 (built_heap ex_data)) \<and>
   mf_at (built_heap ex_data) 0 = \<lparr>low = 0, mid = 1, high = 2\<rparr> \<and>
   mf_at (collapse 0 (built_heap ex_data)) 0 = \<lparr>low = 1, mid = 1, high = 1\<rparr> \<and>
   repair 1 ((init 10 1)\<lparr>rules := Some ex_rules\<rparr>) (collapse 0 (built_heap ex_data))
     = Inr (collapse 0 (built_heap ex_data))"
proof -
  have a: "repair 1 ((init 10 1)\<lparr>rules := Some ex_rules\<rparr>) (built_heap ex_data)
     = Inr (collapse 0 (built_heap ex_data))"
    by (simp add: built_heap_def ex_data_def ex_rules_def collapse_def eval_defs)
  have b: "mf_at (built_heap ex_data) 0 = \<lparr>low = 0, mid = 1, high = 2\<rparr>"
    by (simp add: built_heap_def ex_data_def eval_defs)
  have c: "mf_at (collapse 0 (built_heap ex_data)) 0 = \<lparr>low = 1, mid = 1, high = 1\<rparr>"
    by (simp add: b collapse_def)
  from repair_idempotent [OF a] a b c show ?thesis
    by (intro conjI)
qed

subsection \<open>The activation as it is computed\<close>

lemma activate_foldl:
  assumes "obs < length (rows data)"
    and "list_all (\<lambda>feat. feat < ncols data) feats"
  shows "activate rnd fuzzyfy h data obs mfs feats act =
           Inr (foldl (\<lambda>act feat. rnd (act + rnd (fuzzyfy h (mfs ! feat) (rows data ! obs ! feat)
                                                    / real (length mfs))))
                  act feats)"
  using assms(2)
proof (induction feats arbitrary: act)
  case Nil
  show ?case by simp
next
  case (Cons feat feats)
  from Cons.prems have "feat < ncols data" and "list_all (\<lambda>feat. feat < ncols data) feats"
    by simp_all
  with assms(1) Cons.IH show ?case
    by (simp add: item2_def)
qed

lemma activation_float:
  assumes "obs < length (rows data)" and "length mfs \<le> ncols data"
  shows "activation rnd fuzzyfy h data obs mfs
           = Inr (float_activation rnd fuzzyfy h (rows data ! obs) mfs)"
proof -
  from assms(2) have "list_all (\<lambda>feat. feat < ncols data) [0..<length mfs]"
    by (simp add: list_all_iff)
  from activate_foldl [OF assms(1) this] show ?thesis
    by (simp add: activation_def float_activation_def)
qed



lemma foldl_nonneg:
  assumes "\<And>act x. 0 \<le> act \<Longrightarrow> 0 \<le> step act x"
  shows "0 \<le> (a::real) \<Longrightarrow> 0 \<le> foldl step a xs"
  by (induction xs arbitrary: a) (simp_all add: assms)

lemma float_activation_nonneg:
  assumes "\<And>m v. 0 \<le> fuzzyfy h m v" and "\<And>x. 0 \<le> x \<Longrightarrow> 0 \<le> rnd x"
  shows "0 \<le> float_activation rnd fuzzyfy h row mfs"
  unfolding float_activation_def
proof (rule foldl_nonneg)
  fix act :: real and feat :: nat
  assume "0 \<le> act"
  have "0 \<le> fuzzyfy h (mfs ! feat) (row ! feat) / real (length mfs)"
    by (simp add: assms(1))
  then have "0 \<le> rnd (fuzzyfy h (mfs ! feat) (row ! feat) / real (length mfs))"
    by (rule assms(2))
  with \<open>0 \<le> act\<close>
  have "0 \<le> act + rnd (fuzzyfy h (mfs ! feat) (row ! feat) / real (length mfs))"
    by simp
  then show "0 \<le> rnd (act + rnd (fuzzyfy h (mfs ! feat) (row ! feat) / real (length mfs)))"
    by (rule assms(2))
qed simp

lemma wf_rules_activation:
  assumes "obs < length (rows data)" and "wf_rules data rs"
  shows "list_all (\<lambda>r. activation rnd fuzzyfy h data obs (fst r)
                         = Inr (float_activation rnd fuzzyfy h (rows data ! obs) (fst r))) rs"
  using assms(2) activation_float [OF assms(1)]
  by (simp add: wf_rules_def list_all_iff)

lemma predict_char:
  assumes "obs < length (rows data)" and "wf_rules data rs"
  shows "predict rnd fuzzyfy h data rs obs =
           Inr (if list_all (\<lambda>r. float_activation rnd fuzzyfy h (rows data ! obs) (fst r) < 0) rs
                then - 1
                else snd (last (most_activated rnd fuzzyfy h (rows data ! obs) rs)))"
  unfolding predict_def most_activated_def
    test_scan_char [OF wf_rules_activation [OF assms]]
  by simp

lemma nonneg_not_all_less:
  assumes "rs \<noteq> []" and "\<And>m v. 0 \<le> fuzzyfy h m v" and "\<And>x. 0 \<le> x \<Longrightarrow> 0 \<le> rnd x"
  shows "\<not> list_all (\<lambda>r. float_activation rnd fuzzyfy h row (fst r) < 0) rs"
proof -
  from assms(1) obtain r where r: "r \<in> set rs" by (cases rs) auto
  have "0 \<le> float_activation rnd fuzzyfy h row (fst r)"
    by (rule float_activation_nonneg) (fact assms(2), rule assms(3))
  then have "\<not> float_activation rnd fuzzyfy h row (fst r) < 0" by simp
  with r show ?thesis by (auto simp: list_all_iff)
qed

lemma test_loop_char:
  assumes "list_all (\<lambda>obs. predict rnd fuzzyfy h data rs obs = Inr (p obs)) os"
  shows "test_loop rnd fuzzyfy h data rs os predictions = Inr (predictions @ map p os)"
  using assms by (induction os arbitrary: predictions) simp_all

subsection \<open>Rounding to double precision\<close>

lemma round_half_even_nonneg: "0 \<le> x \<Longrightarrow> 0 \<le> round_half_even x"
  by (auto simp: round_half_even_def Let_def)

lemma float64_nonneg: "0 \<le> x \<Longrightarrow> 0 \<le> float64 x"
  by (simp add: float64_def Let_def round_half_even_nonneg)

lemma two_powr_neg: "2 powr real_of_int (- int m) = 1 / 2 ^ m"
proof (cases m)
  case 0
  then show ?thesis by simp
next
  case (Suc k)
  have "(2::real) powr real_of_int (- int (Suc k)) = 1 / 2 ^ nat (- (- int (Suc k)))"
    by (subst powr_int) simp_all
  moreover have "nat (- (- int (Suc k))) = Suc k" by simp
  ultimately have "(2::real) powr real_of_int (- int (Suc k)) = 1 / 2 ^ Suc k"
    by (simp only:)
  with Suc show ?thesis by (simp only:)
qed

lemma floor_log_binade:
  fixes n :: nat
  assumes "1 / 2 ^ (n + 1) \<le> x" and "x < 1 / 2 ^ n"
  shows "\<lfloor>log 2 x\<rfloor> = - int (n + 1)"
proof -
  have "(0::real) < 1 / 2 ^ (n + 1)" by simp
  from this assms(1) have pos: "0 < x" by (rule less_le_trans)
  have two: "(1::real) < 2" by simp
  have a: "2 powr real_of_int (- int (n + 1)) = 1 / 2 ^ (n + 1)"
    by (rule two_powr_neg)
  have "- int (n + 1) + 1 = - int n" by simp
  then have b: "2 powr real_of_int (- int (n + 1) + 1) = 1 / 2 ^ n"
    by (simp only: two_powr_neg)
  from assms have "2 powr real_of_int (- int (n + 1)) \<le> x
      \<and> x < 2 powr real_of_int (- int (n + 1) + 1)"
    unfolding a b by (rule conjI)
  then show ?thesis
    by (simp only: floor_log_eq_powr_iff [OF pos two])
qed


lemma float64_binade:
  fixes n :: nat
  assumes "1 / 2 ^ (n + 1) \<le> x" and "x < 1 / 2 ^ n"
  shows "float64 x = of_int (round_half_even (x * 2 ^ (n + 53))) / 2 ^ (n + 53)"
proof -
  have "(0::real) < 1 / 2 ^ (n + 1)" by simp
  from this assms(1) have pos: "0 < x" by (rule less_le_trans)
  then have ax: "\<bar>x\<bar> = x" and nz: "x \<noteq> 0" by simp_all
  have "\<lfloor>log 2 x\<rfloor> - 52 = - int (n + 53)"
    unfolding floor_log_binade [OF assms] by simp
  then have p: "2 powr real_of_int (\<lfloor>log 2 x\<rfloor> - 52) = 1 / 2 ^ (n + 53)"
    by (simp only: two_powr_neg)
  show ?thesis
    unfolding float64_def Let_def ax p using nz by simp
qed

lemma round_half_even_down:
  assumes "of_int k \<le> x" and "x < of_int k + 1 / 2"
  shows "round_half_even x = k"
proof -
  from assms have "\<lfloor>x\<rfloor> = k" by linarith
  with assms(2) show ?thesis by (simp add: round_half_even_def Let_def)
qed

lemma round_half_even_up:
  assumes "of_int k - 1 / 2 < x" and "x \<le> of_int k"
  shows "round_half_even x = k"
proof (cases "x = of_int k")
  case True
  then show ?thesis by (simp add: round_half_even_def Let_def)
next
  case False
  with assms have "\<lfloor>x\<rfloor> = k - 1" by linarith
  with assms(1) show ?thesis by (simp add: round_half_even_def Let_def)
qed

lemma round_half_even_tie:
  assumes "x = of_int k - 1 / 2" and "even k"
  shows "round_half_even x = k"
proof -
  from assms(1) have "\<lfloor>x\<rfloor> = k - 1" by linarith
  with assms show ?thesis by (simp add: round_half_even_def Let_def)
qed

lemma float64_eval:
  fixes n :: nat
  assumes "1 / 2 ^ (n + 1) \<le> x" and "x < 1 / 2 ^ n"
    and "round_half_even (x * 2 ^ (n + 53)) = k"
  shows "float64 x = real_of_int k / 2 ^ (n + 53)"
  unfolding float64_binade [OF assms(1,2)] assms(3) ..

lemma round_half_even_tie_up:
  assumes "x = of_int k - 1 / 2" and "even k"
  shows "round_half_even x = k"
proof -
  from assms(1) have "\<lfloor>x\<rfloor> = k - 1" by linarith
  with assms show ?thesis by (simp add: round_half_even_def Let_def)
qed

lemma round_half_even_tie_down:
  assumes "x = of_int k + 1 / 2" and "even k"
  shows "round_half_even x = k"
proof -
  from assms(1) have "\<lfloor>x\<rfloor> = k" by linarith
  with assms show ?thesis by (simp add: round_half_even_def Let_def)
qed

lemma f_third: "float64 (1 / 3) = real_of_int 6004799503160661 / 2 ^ (1 + 53)"
proof (rule float64_eval)
  show "1 / 2 ^ (1 + 1) \<le> (1 / 3 :: real)" by simp
  show "(1 / 3 :: real) < 1 / 2 ^ 1" by simp
  show "round_half_even ((1 / 3) * 2 ^ (1 + 53)) = 6004799503160661"
    by (rule round_half_even_down) simp_all
qed

lemma f_sixth: "float64 (1 / 2 / 3) = real_of_int 6004799503160661 / 2 ^ (2 + 53)"
proof (rule float64_eval)
  show "1 / 2 ^ (2 + 1) \<le> (1 / 2 / 3 :: real)" by simp
  show "(1 / 2 / 3 :: real) < 1 / 2 ^ 2" by simp
  show "round_half_even ((1 / 2 / 3) * 2 ^ (2 + 53)) = 6004799503160661"
    by (rule round_half_even_down) simp_all
qed

lemma f_twelfth: "float64 (1 / 4 / 3) = real_of_int 6004799503160661 / 2 ^ (3 + 53)"
proof (rule float64_eval)
  show "1 / 2 ^ (3 + 1) \<le> (1 / 4 / 3 :: real)" by simp
  show "(1 / 4 / 3 :: real) < 1 / 2 ^ 3" by simp
  show "round_half_even ((1 / 4 / 3) * 2 ^ (3 + 53)) = 6004799503160661"
    by (rule round_half_even_down) simp_all
qed

lemma f_b1: "float64 (real_of_int 6004799503160661 / 2 ^ (3 + 53)) = real_of_int 6004799503160661 / 2 ^ (3 + 53)"
proof (rule float64_eval)
  show "1 / 2 ^ (3 + 1) \<le> (real_of_int 6004799503160661 / 2 ^ (3 + 53) :: real)" by simp
  show "(real_of_int 6004799503160661 / 2 ^ (3 + 53) :: real) < 1 / 2 ^ 3" by simp
  show "round_half_even ((real_of_int 6004799503160661 / 2 ^ (3 + 53)) * 2 ^ (3 + 53)) = 6004799503160661"
    by (rule round_half_even_down) simp_all
qed

lemma f_b2: "float64 (real_of_int 6004799503160661 / 2 ^ (3 + 53) + real_of_int 6004799503160661 / 2 ^ (2 + 53)) = real_of_int 9007199254740992 / 2 ^ (2 + 53)"
proof (rule float64_eval)
  show "1 / 2 ^ (2 + 1) \<le> (real_of_int 6004799503160661 / 2 ^ (3 + 53) + real_of_int 6004799503160661 / 2 ^ (2 + 53) :: real)" by simp
  show "(real_of_int 6004799503160661 / 2 ^ (3 + 53) + real_of_int 6004799503160661 / 2 ^ (2 + 53) :: real) < 1 / 2 ^ 2" by simp
  show "round_half_even ((real_of_int 6004799503160661 / 2 ^ (3 + 53) + real_of_int 6004799503160661 / 2 ^ (2 + 53)) * 2 ^ (2 + 53)) = 9007199254740992"
    by (rule round_half_even_tie_up) simp_all
qed

lemma f_b3: "float64 (real_of_int 9007199254740992 / 2 ^ (2 + 53) + real_of_int 6004799503160661 / 2 ^ (1 + 53)) = real_of_int 5254199565265578 / 2 ^ (0 + 53)"
proof (rule float64_eval)
  show "1 / 2 ^ (0 + 1) \<le> (real_of_int 9007199254740992 / 2 ^ (2 + 53) + real_of_int 6004799503160661 / 2 ^ (1 + 53) :: real)" by simp
  show "(real_of_int 9007199254740992 / 2 ^ (2 + 53) + real_of_int 6004799503160661 / 2 ^ (1 + 53) :: real) < 1 / 2 ^ 0" by simp
  show "round_half_even ((real_of_int 9007199254740992 / 2 ^ (2 + 53) + real_of_int 6004799503160661 / 2 ^ (1 + 53)) * 2 ^ (0 + 53)) = 5254199565265578"
    by (rule round_half_even_tie_down) simp_all
qed

lemma f_a1: "float64 (real_of_int 6004799503160661 / 2 ^ (1 + 53)) = real_of_int 6004799503160661 / 2 ^ (1 + 53)"
proof (rule float64_eval)
  show "1 / 2 ^ (1 + 1) \<le> (real_of_int 6004799503160661 / 2 ^ (1 + 53) :: real)" by simp
  show "(real_of_int 6004799503160661 / 2 ^ (1 + 53) :: real) < 1 / 2 ^ 1" by simp
  show "round_half_even ((real_of_int 6004799503160661 / 2 ^ (1 + 53)) * 2 ^ (1 + 53)) = 6004799503160661"
    by (rule round_half_even_down) simp_all
qed

lemma f_a2: "float64 (real_of_int 6004799503160661 / 2 ^ (1 + 53) + real_of_int 6004799503160661 / 2 ^ (2 + 53)) = real_of_int 9007199254740992 / 2 ^ (1 + 53)"
proof (rule float64_eval)
  show "1 / 2 ^ (1 + 1) \<le> (real_of_int 6004799503160661 / 2 ^ (1 + 53) + real_of_int 6004799503160661 / 2 ^ (2 + 53) :: real)" by simp
  show "(real_of_int 6004799503160661 / 2 ^ (1 + 53) + real_of_int 6004799503160661 / 2 ^ (2 + 53) :: real) < 1 / 2 ^ 1" by simp
  show "round_half_even ((real_of_int 6004799503160661 / 2 ^ (1 + 53) + real_of_int 6004799503160661 / 2 ^ (2 + 53)) * 2 ^ (1 + 53)) = 9007199254740992"
    by (rule round_half_even_tie_up) simp_all
qed

lemma f_a3: "float64 (real_of_int 9007199254740992 / 2 ^ (1 + 53) + real_of_int 6004799503160661 / 2 ^ (3 + 53)) = real_of_int 5254199565265579 / 2 ^ (0 + 53)"
proof (rule float64_eval)
  show "1 / 2 ^ (0 + 1) \<le> (real_of_int 9007199254740992 / 2 ^ (1 + 53) + real_of_int 6004799503160661 / 2 ^ (3 + 53) :: real)" by simp
  show "(real_of_int 9007199254740992 / 2 ^ (1 + 53) + real_of_int 6004799503160661 / 2 ^ (3 + 53) :: real) < 1 / 2 ^ 0" by simp
  show "round_half_even ((real_of_int 9007199254740992 / 2 ^ (1 + 53) + real_of_int 6004799503160661 / 2 ^ (3 + 53)) * 2 ^ (0 + 53)) = 5254199565265579"
    by (rule round_half_even_up) simp_all
qed

lemma float_activation_3:
  "float_activation rnd fuzzyfy h row [a, b, c] =
     rnd (rnd (rnd (rnd (fuzzyfy h a (row ! 0) / 3)) + rnd (fuzzyfy h b (row ! 1) / 3))
          + rnd (fuzzyfy h c (row ! 2) / 3))"
  by (simp add: float_activation_def upt_rec numeral_2_eq_2)

lemma float_activation_quarter_first:
  "float_activation float64 fuzzyfy_table h row [0, 5, 10] = 5254199565265578 / 2 ^ 53"
proof -
  have "float_activation float64 fuzzyfy_table h row [0, 5, 10] =
          float64 (float64 (float64 (float64 (1 / 4 / 3)) + float64 (1 / 2 / 3)) + float64 (1 / 3))"
    by (simp add: float_activation_3 fuzzyfy_table_def)
  also have "\<dots> = real_of_int 5254199565265578 / 2 ^ (0 + 53)"
    by (simp only: f_twelfth f_b1 f_sixth f_b2 f_third f_b3)
  finally show ?thesis by simp
qed

lemma float_activation_one_first:
  "float_activation float64 fuzzyfy_table h row [1, 6, 11] = 5254199565265579 / 2 ^ 53"
proof -
  have "float_activation float64 fuzzyfy_table h row [1, 6, 11] =
          float64 (float64 (float64 (float64 (1 / 3)) + float64 (1 / 2 / 3)) + float64 (1 / 4 / 3))"
    by (simp add: float_activation_3 fuzzyfy_table_def)
  also have "\<dots> = real_of_int 5254199565265579 / 2 ^ (0 + 53)"
    by (simp only: f_third f_a1 f_sixth f_a2 f_twelfth f_a3)
  finally show ?thesis by simp
qed



lemma most_activated_table:
  "most_activated float64 fuzzyfy_table h row ulp_rules = [([1, 6, 11], 1)]"
  "most_activated float64 fuzzyfy_table h row (rev ulp_rules) = [([1, 6, 11], 1)]"
  by (simp_all add: most_activated_def maximal_by_def ulp_rules_def
      float_activation_quarter_first float_activation_one_first del: One_nat_def)

subsection \<open>Evaluation picks the last of the most activated rules\<close>

text \<open>
  C4.  For rule keys no longer than a row, membership degrees that are never negative and
  a rounding that keeps nonnegative numbers nonnegative, \<open>test\<close> predicts, for every
  observation of the data, the class of the last rule, in enumeration order, among the
  rules whose computed activation is the greatest: the comparison \<open>>=\<close> lets a later rule
  of equal activation replace an earlier one.  With an empty rule dictionary every
  prediction is the value \<open>-1\<close> that \<open>max_class\<close> starts with.
\<close>

theorem test_last_most_activated:
  assumes "rules nfs = Some rs" and "wf_rules data rs"
    and "\<And>m v. 0 \<le> fuzzyfy h m v" and "\<And>x. 0 \<le> x \<Longrightarrow> 0 \<le> rnd x"
  shows "test rnd fuzzyfy data nfs h =
           Inr (map (\<lambda>obs. if rs = [] then - 1
                           else snd (last (most_activated rnd fuzzyfy h (rows data ! obs) rs)))
                  [0..<length (rows data)])"
proof -
  let ?p = "\<lambda>obs. if rs = [] then - 1
                 else snd (last (most_activated rnd fuzzyfy h (rows data ! obs) rs))"
  have "list_all (\<lambda>obs. predict rnd fuzzyfy h data rs obs = Inr (?p obs)) [0..<length (rows data)]"
    unfolding list_all_iff
  proof
    fix obs assume "obs \<in> set [0..<length (rows data)]"
    then have o: "obs < length (rows data)" by simp
    show "predict rnd fuzzyfy h data rs obs = Inr (?p obs)"
    proof (cases "rs = []")
      case True
      then show ?thesis by (simp add: predict_def)
    next
      case False
      have "\<not> list_all (\<lambda>r. float_activation rnd fuzzyfy h (rows data ! obs) (fst r) < 0) rs"
        by (rule nonneg_not_all_less [where fuzzyfy = fuzzyfy and h = h and rnd = rnd,
              OF False assms(3)]) (rule assms(4))
      with False show ?thesis
        unfolding predict_char [OF o assms(2)] by simp
    qed
  qed
  from test_loop_char [where p = ?p, OF this] show ?thesis
    by (simp add: test_def assms(1))
qed

theorem test_last_most_activated_witness:
  "rules ((init 10 1)\<lparr>rules := Some (rev ulp_rules)\<rparr>) = Some (rev ulp_rules) \<and>
   wf_rules three_data (rev ulp_rules) \<and>
   (\<forall>m v. 0 \<le> fuzzyfy_table empty_heap m v) \<and>
   list_all (\<lambda>x. 0 \<le> float64 x) [0, 1 / 3] \<and>
   most_activated float64 fuzzyfy_table empty_heap (rows three_data ! 0) (rev ulp_rules)
     = [([1, 6, 11], 1)] \<and>
   test float64 fuzzyfy_table three_data ((init 10 1)\<lparr>rules := Some (rev ulp_rules)\<rparr>) empty_heap
     = Inr [1] \<and>
   most_activated exact fuzzyfy_one (built_heap ex_data) (rows ex_data ! 0) ex_rules = ex_rules \<and>
   test exact fuzzyfy_one ex_data ((init 10 1)\<lparr>rules := Some ex_rules\<rparr>) (built_heap ex_data)
     = Inr [1, 1, 1] \<and>
   test exact fuzzyfy_one ex_data ((init 10 1)\<lparr>rules := Some []\<rparr>) (built_heap ex_data)
     = Inr [- 1, - 1, - 1]"
proof -
  have a: "rules ((init 10 1)\<lparr>rules := Some (rev ulp_rules)\<rparr>) = Some (rev ulp_rules)" by simp
  have b: "wf_rules three_data (rev ulp_rules)"
    by (simp add: wf_rules_def three_data_def ulp_rules_def)
  have c: "0 \<le> fuzzyfy_table empty_heap m v" for m v by (simp add: fuzzyfy_table_def)
  have d: "0 \<le> x \<Longrightarrow> 0 \<le> float64 x" for x by (rule float64_nonneg)
  have d': "list_all (\<lambda>x. 0 \<le> float64 x) [0, 1 / 3]" by (simp add: d)
  have l: "length (rows three_data) = 1" by (simp add: three_data_def)
  have m: "most_activated float64 fuzzyfy_table empty_heap (rows three_data ! 0) (rev ulp_rules)
     = [([1, 6, 11], 1)]"
    by (rule most_activated_table)
  have n: "rev ulp_rules \<noteq> []" by (simp add: ulp_rules_def)
  from test_last_most_activated
         [where fuzzyfy = fuzzyfy_table and h = empty_heap and rnd = float64, OF a b c d]
  have r: "test float64 fuzzyfy_table three_data ((init 10 1)\<lparr>rules := Some (rev ulp_rules)\<rparr>)
             empty_heap = Inr [1]"
    unfolding l using n m by simp
  have a1: "rules ((init 10 1)\<lparr>rules := Some ex_rules\<rparr>) = Some ex_rules" by simp
  have a0: "rules ((init 10 1)\<lparr>rules := Some []\<rparr>) = Some []" by simp
  have b1: "wf_rules ex_data ex_rules" by (simp add: wf_rules_def ex_data_def ex_rules_def)
  have b0: "wf_rules ex_data []" by (simp add: wf_rules_def)
  have c1: "0 \<le> fuzzyfy_one (built_heap ex_data) m v" for m v by (simp add: fuzzyfy_one_def)
  have e1: "0 \<le> x \<Longrightarrow> 0 \<le> exact x" for x by (simp add: exact_def)
  have m1: "most_activated exact fuzzyfy_one (built_heap ex_data) row ex_rules = ex_rules" for row
    by (simp add: most_activated_def maximal_by_def float_activation_def fuzzyfy_one_def
        exact_def ex_rules_def)
  have l1: "length (rows ex_data) = 3" by (simp add: ex_data_def)
  have u: "[0..<3] = [0, 1, 2]" by (simp add: upt_rec)
  have n1: "ex_rules \<noteq> []" and s1: "snd (last ex_rules) = 1" by (simp_all add: ex_rules_def)
  from test_last_most_activated
         [where fuzzyfy = fuzzyfy_one and h = "built_heap ex_data" and rnd = exact, OF a1 b1 c1 e1]
  have r1: "test exact fuzzyfy_one ex_data ((init 10 1)\<lparr>rules := Some ex_rules\<rparr>)
              (built_heap ex_data) = Inr [1, 1, 1]"
    unfolding m1 l1 u using n1 s1 by simp
  from test_last_most_activated
         [where fuzzyfy = fuzzyfy_one and h = "built_heap ex_data" and rnd = exact, OF a0 b0 c1 e1]
  have r0: "test exact fuzzyfy_one ex_data ((init 10 1)\<lparr>rules := Some []\<rparr>)
              (built_heap ex_data) = Inr [- 1, - 1, - 1]"
    unfolding l1 u by simp
  from a b c d' m r m1 r1 r0 show ?thesis by (intro conjI allI)
qed

subsection \<open>Training picks the first of the most activated rules\<close>




subsection \<open>Evaluation returns the class of a rule when there is one\<close>

text \<open>
  C10 fails as stated.  With the labels \<open>1, -1, -1\<close> on \<open>ex_data\<close> and a support threshold
  of \<open>1\<close>, induction keeps a rule of class \<open>-1\<close>.  The rule dictionary is not empty and
  the degrees are not negative, yet every prediction of \<open>test\<close> is \<open>-1\<close>.
\<close>

theorem rule_labelled_minus_one_is_predicted:
  "label_loop (built_heap ex_data) ex_data minus_target 1 [[0], [1], [2], [3], [4]] []
     = Inr minus_rules \<and>
   minus_rules \<noteq> [] \<and> wf_rules ex_data minus_rules \<and>
   (\<forall>m v. 0 \<le> fuzzyfy_one (built_heap ex_data) m v) \<and>
   test exact fuzzyfy_one ex_data ((init 10 1)\<lparr>rules := Some minus_rules\<rparr>) (built_heap ex_data)
     = Inr [- 1, - 1, - 1]"
proof -
  have a: "label_loop (built_heap ex_data) ex_data minus_target 1 [[0], [1], [2], [3], [4]] []
     = Inr minus_rules"
    by (simp add: built_heap_def ex_data_def minus_target_def minus_rules_def eval_defs)
  have b: "minus_rules \<noteq> []" by (simp add: minus_rules_def)
  have c: "wf_rules ex_data minus_rules"
    by (simp add: wf_rules_def ex_data_def minus_rules_def)
  have d: "\<forall>m v. 0 \<le> fuzzyfy_one (built_heap ex_data) m v" by (simp add: fuzzyfy_one_def)
  have e: "test exact fuzzyfy_one ex_data ((init 10 1)\<lparr>rules := Some minus_rules\<rparr>)
             (built_heap ex_data) = Inr [- 1, - 1, - 1]"
    by (simp add: test_def predict_def activation_def item2_def fuzzyfy_one_def exact_def
        ex_data_def minus_rules_def upt_rec)
  from a b c d e show ?thesis by (intro conjI)
qed

text \<open>
  C10, amended.  For a non-empty rule dictionary with keys no longer than a row, membership
  degrees that are never negative and a rounding that keeps nonnegative numbers
  nonnegative, \<open>test\<close> returns one prediction per observation, and every prediction is the
  class label of some rule of the dictionary; so a prediction is \<open>-1\<close> only if a rule
  carries the label \<open>-1\<close>.  This holds also when every activation is \<open>0\<close>, since
  \<open>0 >= 0\<close> accepts the rule.
\<close>

theorem test_returns_rule_classes:
  assumes "rules nfs = Some rs" and "wf_rules data rs" and "rs \<noteq> []"
    and "\<And>m v. 0 \<le> fuzzyfy h m v" and "\<And>x. 0 \<le> x \<Longrightarrow> 0 \<le> rnd x"
  shows "\<exists>predictions. test rnd fuzzyfy data nfs h = Inr predictions
           \<and> length predictions = length (rows data)
           \<and> list_all (\<lambda>max_class. max_class \<in> snd ` set rs) predictions
           \<and> (list_all (\<lambda>r. snd r \<noteq> - 1) rs
                \<longrightarrow> list_all (\<lambda>max_class. max_class \<noteq> - 1) predictions)"
proof -
  let ?p = "\<lambda>obs. snd (last (most_activated rnd fuzzyfy h (rows data ! obs) rs))"
  have mem: "?p obs \<in> snd ` set rs" for obs
  proof -
    let ?most = "most_activated rnd fuzzyfy h (rows data ! obs) rs"
    from maximal_by_nonempty [OF assms(3)] have "?most \<noteq> []"
      by (simp add: most_activated_def)
    then have m: "last ?most \<in> set ?most" by (rule last_in_set)
    have "set ?most \<subseteq> set rs"
      unfolding most_activated_def by (rule maximal_by_subset)
    with m have "last ?most \<in> set rs" by (rule rev_subsetD)
    then show ?thesis by (rule imageI)
  qed
  have nl: "\<not> list_all (\<lambda>r. float_activation rnd fuzzyfy h row (fst r) < 0) rs" for row
    by (rule nonneg_not_all_less [where fuzzyfy = fuzzyfy and h = h and rnd = rnd,
          OF assms(3,4)]) (rule assms(5))
  have "list_all (\<lambda>obs. predict rnd fuzzyfy h data rs obs = Inr (?p obs)) [0..<length (rows data)]"
    unfolding list_all_iff
  proof
    fix obs assume "obs \<in> set [0..<length (rows data)]"
    then have o: "obs < length (rows data)" by simp
    show "predict rnd fuzzyfy h data rs obs = Inr (?p obs)"
      unfolding predict_char [OF o assms(2)] using nl by simp
  qed
  from test_loop_char [where p = ?p, OF this]
  have t: "test rnd fuzzyfy data nfs h = Inr (map ?p [0..<length (rows data)])"
    by (simp add: test_def assms(1))
  have l: "length (map ?p [0..<length (rows data)]) = length (rows data)" by simp
  have a: "list_all (\<lambda>max_class. max_class \<in> snd ` set rs) (map ?p [0..<length (rows data)])"
    unfolding list_all_iff using mem by auto
  have n: "list_all (\<lambda>r. snd r \<noteq> - 1) rs
             \<longrightarrow> list_all (\<lambda>max_class. max_class \<noteq> - 1) (map ?p [0..<length (rows data)])"
  proof
    assume "list_all (\<lambda>r. snd r \<noteq> - 1) rs"
    then have "c \<noteq> - 1" if "c \<in> snd ` set rs" for c
      using that by (auto simp: list_all_iff)
    with a show "list_all (\<lambda>max_class. max_class \<noteq> - 1) (map ?p [0..<length (rows data)])"
      by (simp add: list_all_iff)
  qed
  show ?thesis
    by (rule exI [where x = "map ?p [0..<length (rows data)]"])
       (rule conjI [OF t conjI [OF l conjI [OF a n]]])
qed

theorem test_returns_rule_classes_witness:
  "rules ((init 10 1)\<lparr>rules := Some ex_rules\<rparr>) = Some ex_rules \<and>
   wf_rules ex_data ex_rules \<and> ex_rules \<noteq> [] \<and>
   (\<forall>m v. 0 \<le> fuzzyfy_zero (built_heap ex_data) m v) \<and>
   list_all (\<lambda>r. activation float64 fuzzyfy_zero (built_heap ex_data) ex_data 0 (fst r) = Inr 0)
     ex_rules \<and>
   list_all (\<lambda>r. snd r \<noteq> - 1) ex_rules \<and>
   (\<exists>predictions.
      test float64 fuzzyfy_zero ex_data ((init 10 1)\<lparr>rules := Some ex_rules\<rparr>) (built_heap ex_data)
        = Inr predictions
      \<and> length predictions = length (rows ex_data)
      \<and> list_all (\<lambda>max_class. max_class \<in> snd ` set ex_rules) predictions
      \<and> list_all (\<lambda>max_class. max_class \<noteq> - 1) predictions)"
proof -
  have a: "rules ((init 10 1)\<lparr>rules := Some ex_rules\<rparr>) = Some ex_rules" by simp
  have b: "wf_rules ex_data ex_rules" by (simp add: wf_rules_def ex_data_def ex_rules_def)
  have n: "ex_rules \<noteq> []" by (simp add: ex_rules_def)
  have c: "0 \<le> fuzzyfy_zero (built_heap ex_data) m v" for m v by (simp add: fuzzyfy_zero_def)
  have d: "0 \<le> x \<Longrightarrow> 0 \<le> float64 x" for x by (rule float64_nonneg)
  have z: "list_all (\<lambda>r. activation float64 fuzzyfy_zero (built_heap ex_data) ex_data 0 (fst r)
                          = Inr 0) ex_rules"
    by (simp add: activation_def item2_def fuzzyfy_zero_def float64_def ex_rules_def ex_data_def)
  have m: "list_all (\<lambda>r. snd r \<noteq> - 1) ex_rules" by (simp add: ex_rules_def)
  from test_returns_rule_classes
         [where fuzzyfy = fuzzyfy_zero and h = "built_heap ex_data" and rnd = float64, OF a b n c d]
  obtain predictions where
    t: "test float64 fuzzyfy_zero ex_data ((init 10 1)\<lparr>rules := Some ex_rules\<rparr>)
          (built_heap ex_data) = Inr predictions
        \<and> length predictions = length (rows ex_data)
        \<and> list_all (\<lambda>max_class. max_class \<in> snd ` set ex_rules) predictions
        \<and> (list_all (\<lambda>r. snd r \<noteq> - 1) ex_rules
             \<longrightarrow> list_all (\<lambda>max_class. max_class \<noteq> - 1) predictions)"
    by (rule exE)
  from t m have "test float64 fuzzyfy_zero ex_data ((init 10 1)\<lparr>rules := Some ex_rules\<rparr>)
          (built_heap ex_data) = Inr predictions
        \<and> length predictions = length (rows ex_data)
        \<and> list_all (\<lambda>max_class. max_class \<in> snd ` set ex_rules) predictions
        \<and> list_all (\<lambda>max_class. max_class \<noteq> - 1) predictions"
    by simp
  then have ex: "\<exists>predictions.
      test float64 fuzzyfy_zero ex_data ((init 10 1)\<lparr>rules := Some ex_rules\<rparr>) (built_heap ex_data)
        = Inr predictions
      \<and> length predictions = length (rows ex_data)
      \<and> list_all (\<lambda>max_class. max_class \<in> snd ` set ex_rules) predictions
      \<and> list_all (\<lambda>max_class. max_class \<noteq> - 1) predictions"
    by (rule exI)
  from a b n c z m ex show ?thesis by (intro conjI allI)
qed

subsection \<open>Input shapes\<close>

lemma find_max_rule_empty_keys:
  assumes "list_all (\<lambda>r. fst r = []) rs"
  shows "find_max_rule rnd fuzzyfy h data obs rs (None, 0) = Inr (None, 0)"
  using assms by (induction rs) (auto simp: activation_def)

lemma train_pass_empty_keys:
  assumes "list_all (\<lambda>r. fst r = []) rs"
  shows "train_pass rnd fuzzyfy move data target learning_rate rs os h = Inr h"
  by (induction os) (simp_all add: train_obs_def find_max_rule_empty_keys [OF assms])

lemma train_iters_empty_keys:
  assumes "list_all (\<lambda>r. fst r = []) rs"
  shows "train_iters rnd fuzzyfy move data target learning_rate rs n h = Inr h"
  by (induction n) (simp_all add: train_pass_empty_keys [OF assms])

lemma label_loop_keys:
  assumes "length (rows data) \<le> length target"
  shows "\<exists>rs. label_loop h data target min_obs cells [] = Inr rs
           \<and> list_all (\<lambda>r. fst r \<in> set cells) rs"
proof -
  from label_loop_map_of [OF assms, of h min_obs cells "[]"] obtain rs where
    a: "label_loop h data target min_obs cells [] = Inr rs
           \<and> (\<forall>cell. map_of rs cell =
                 (if cell \<in> set cells
                  then (case label_cell h data target cell of
                          Inr (Some (n, c)) \<Rightarrow> if min_obs \<le> int n then Some c else map_of [] cell
                        | _ \<Rightarrow> map_of [] cell)
                  else map_of [] cell))"
    by (rule exE)
  have "fst r \<in> set cells" if "r \<in> set rs" for r
  proof (rule ccontr)
    assume "fst r \<notin> set cells"
    with a have "map_of rs (fst r) = None" by simp
    then have "fst r \<notin> fst ` set rs" by (simp add: map_of_eq_None_iff)
    with that show False by simp
  qed
  then have "list_all (\<lambda>r. fst r \<in> set cells) rs" by (simp add: list_all_iff)
  with a show ?thesis by (intro exI [where x = rs]) simp
qed

text \<open>
  C9, amended.  When the number of rows of the matrix differs from the length of the label
  vector, the shuffle of line 38 raises \<open>ValueError\<close> and \<open>train\<close> fails with it, before any
  membership function is built.  A matrix without features is not rejected: when the
  number of rows equals the length of the label vector, \<open>train\<close> returns, and the heap is
  as before (no membership function is built and none is moved).
\<close>

theorem train_shape_checks:
  "(length (rows data0) \<noteq> length target0 \<longrightarrow>
      sklearn_shuffle perm data0 target0 = Inl ValueError \<and>
      train (sklearn_shuffle perm) rnd fuzzyfy move data0 target0 nb_iter learning_rate nfs h
        = Inl ValueError) \<and>
   (length (rows data0) = length target0 \<longrightarrow> ncols data0 = 0 \<longrightarrow> wf_data data0 \<longrightarrow>
      is_permutation perm (length (rows data0)) \<longrightarrow>
      (\<exists>nfs1. train (sklearn_shuffle perm) rnd fuzzyfy move data0 target0 nb_iter learning_rate
                nfs h = Inr (nfs1, h)))"
proof (intro conjI impI)
  assume "length (rows data0) \<noteq> length target0"
  then show sh: "sklearn_shuffle perm data0 target0 = Inl ValueError"
    by (simp add: sklearn_shuffle_def)
  then show "train (sklearn_shuffle perm) rnd fuzzyfy move data0 target0 nb_iter learning_rate
               nfs h = Inl ValueError"
    by (simp add: train_def induce_and_repair_def)
next
  assume len: "length (rows data0) = length target0" and nc: "ncols data0 = 0"
  let ?data = "data0\<lparr>rows := map (\<lambda>i. rows data0 ! i) perm\<rparr>"
  let ?target = "map (\<lambda>i. target0 ! i) perm"
  from len have sh: "sklearn_shuffle perm data0 target0 = Inr (?data, ?target)"
    by (simp add: sklearn_shuffle_def)
  have l: "length (rows ?data) \<le> length ?target" by simp
  from nc have nc': "ncols ?data = 0" by simp
  from label_loop_keys [OF l, of h "min_observations_per_rule nfs" "[[]]"] obtain rs where
    a: "label_loop h ?data ?target (min_observations_per_rule nfs) [[]] [] = Inr rs
           \<and> list_all (\<lambda>r. fst r \<in> set [[]]) rs"
    by (rule exE)
  then have k: "list_all (\<lambda>r. fst r = []) rs" by simp
  let ?nfs1 = "nfs\<lparr>nb_of_features := ncols data0, rules := Some rs\<rparr>"
  from sh nc' a
  have "induce_and_repair (sklearn_shuffle perm) data0 target0 nfs h
          = Inr (?data, ?target, ?nfs1, h)"
    by (simp add: induce_and_repair_def repair_def Let_def)
  then have "train (sklearn_shuffle perm) rnd fuzzyfy move data0 target0 nb_iter learning_rate
               nfs h = Inr (?nfs1, h)"
    by (simp add: train_def train_iters_empty_keys [OF k])
  then show "\<exists>nfs1. train (sklearn_shuffle perm) rnd fuzzyfy move data0 target0 nb_iter
                learning_rate nfs h = Inr (nfs1, h)"
    by (rule exI)
qed

text \<open>
  C9 fails as stated.  On a matrix of one row and no feature, with one label, \<open>train\<close>
  does not fail: it returns a rule dictionary whose only key is the empty tuple.
\<close>

theorem train_accepts_zero_feature_matrix:
  "ncols no_feature_data = 0 \<and> rows no_feature_data = [[]] \<and>
   length (rows no_feature_data) = length [3 :: int] \<and>
   train (sklearn_shuffle [0]) float64 fuzzyfy_zero move_mid no_feature_data [3] 1 (1 / 10)
     (init 10 1) empty_heap
     = Inr ((init 10 1)\<lparr>nb_of_features := 0, rules := Some [([], 3)]\<rparr>, empty_heap)"
  by (simp add: train_def induce_and_repair_def sklearn_shuffle_def no_feature_data_def
      activation_def train_obs_def eval_defs)

theorem train_shape_checks_witness:
  "length (rows ex_data) \<noteq> length [0 :: int, 1] \<and>
   sklearn_shuffle [1, 0, 2] ex_data [0, 1] = Inl ValueError \<and>
   train (sklearn_shuffle [1, 0, 2]) float64 fuzzyfy_zero move_mid ex_data [0, 1] 1 (1 / 10)
     (init 10 1) empty_heap = Inl ValueError \<and>
   length (rows no_feature_data) = length [3 :: int] \<and>
   ncols no_feature_data = 0 \<and> wf_data no_feature_data \<and>
   is_permutation [0] (length (rows no_feature_data)) \<and>
   (\<exists>nfs1. train (sklearn_shuffle [0]) float64 fuzzyfy_zero move_mid no_feature_data [3] 1
              (1 / 10) (init 10 1) empty_heap = Inr (nfs1, empty_heap))"
proof -
  have a: "length (rows ex_data) \<noteq> length [0 :: int, 1]" by (simp add: ex_data_def)
  have b: "length (rows no_feature_data) = length [3 :: int]"
    by (simp add: no_feature_data_def)
  have c: "ncols no_feature_data = 0" by (simp add: no_feature_data_def)
  have d: "wf_data no_feature_data" by (simp add: wf_data_def no_feature_data_def)
  have e: "is_permutation [0] (length (rows no_feature_data))"
    by (simp add: is_permutation_def no_feature_data_def)
  note t1 = train_shape_checks
      [where perm = "[1, 0, 2]" and ?data0.0 = ex_data and ?target0.0 = "[0, 1]" and rnd = float64
         and fuzzyfy = fuzzyfy_zero and move = move_mid and nb_iter = 1
         and learning_rate = "1 / 10" and nfs = "init 10 1" and h = empty_heap,
       THEN conjunct1, THEN mp, OF a]
  note t2 = train_shape_checks
      [where perm = "[0]" and ?data0.0 = no_feature_data and ?target0.0 = "[3]" and rnd = float64
         and fuzzyfy = fuzzyfy_zero and move = move_mid and nb_iter = 1
         and learning_rate = "1 / 10" and nfs = "init 10 1" and h = empty_heap,
       THEN conjunct2, THEN mp, OF b, THEN mp, OF c, THEN mp, OF d, THEN mp, OF e]
  from a t1 [THEN conjunct1] t1 [THEN conjunct2] b c d e t2 show ?thesis by (intro conjI)
qed

end
